theory Spec2Isabelle
  imports Complex_Main "HOL-Library.Multiset" "HOL-Library.Log_Nat" "HOL-Library.Sublist"
begin

section \<open>Data model\<close>

text \<open>
  The element type \<open>element_t\<close> of the tree is a C++ \<open>double\<close>.  The aggregation code is
  modelled over an arbitrary carrier \<open>'a\<close> that only offers the operations the code uses;
  the geometric and the multipole code is modelled over \<open>real\<close>.  A point
  (\<open>point_t\<close>, an array of \<open>dimension\<close> coordinates) is the list of its coordinates.
\<close>

type_synonym 'a point = "'a list"

text \<open>\<open>tree_entity::locality\<close>, in the order of the enumeration.\<close>

datatype locality = LOCAL | NONLOCAL | SHARED | EXCL | GHOST

text \<open>
  An entity of the tree (\<open>tree_entity\<close> with the attributes of the body holder that the
  traversals read: position, mass, smoothing length, owner).
\<close>

record 'a entity =
  ent_id :: nat
  ent_coordinates :: "'a point"
  ent_mass :: 'a
  ent_h :: 'a
  ent_locality :: locality
  ent_owner :: nat
  ent_branch_id :: nat

text \<open>\<open>tree_entity::is_local\<close>.\<close>

definition is_local :: "('a, 'z) entity_scheme \<Rightarrow> bool" where
  "is_local e = (ent_locality e = LOCAL \<or> ent_locality e = EXCL \<or> ent_locality e = SHARED)"

datatype action = action_none | action_refine | action_coarsen

text \<open>
  A branch.  The branch class itself (\<open>tree_branch.h\<close> and the policy) is not among the
  sources; the record holds the attributes that the tree code reads and writes through
  its accessors: the id, the leaf flag, the entities of a leaf, the requested action and
  the aggregates (mass, centre of mass, bounding box, number of sub-entities).
\<close>

record 'a branch =
  br_id :: nat
  br_leaf :: bool
  br_ents :: "'a entity list"
  br_action :: action
  br_mass :: 'a
  br_coordinates :: "'a point"
  br_bmin :: "'a point"
  br_bmax :: "'a point"
  br_sub_entities :: nat

text \<open>
  The hashed tree: \<open>branch_map_\<close> is the hash map from branch ids to branches; a pointer
  to a branch is the key of its slot.
\<close>

type_synonym 'a branch_map = "nat \<Rightarrow> 'a branch option"

text \<open>
  How a run ends without a result: a failed \<open>assert\<close>, a dereferenced \<open>nullptr\<close>, the
  recursion budget of the model used up, an integer division by zero, or an access to a
  vector outside its bounds.
\<close>

datatype error = AssertionFailed | NullPointer | OutOfFuel | DivisionByZero | OutOfBounds

section \<open>Branch ids\<close>

text \<open>
  Modelled from the spec: \<open>morton_branch_id.h\<close> is not among the sources.  A branch id is
  the integer whose bits are a leading sentinel bit followed by one \<open>D\<close>-bit child
  selector per level; \<open>push\<close> appends a selector, \<open>pop\<close> discards the last one, the root
  is the bare sentinel and the null id is zero.  The integer is unbounded here.
\<close>

definition root_id :: nat where
  "root_id = 1"

definition null_id :: nat where
  "null_id = 0"

definition push :: "nat \<Rightarrow> nat \<Rightarrow> nat \<Rightarrow> nat" where
  "push D k i = k * 2 ^ D + i"

definition pop :: "nat \<Rightarrow> nat \<Rightarrow> nat" where
  "pop D k = k div 2 ^ D"

text \<open>A loop whose body may fail: the first failure ends the run.\<close>

fun efold :: "('b \<Rightarrow> 's \<Rightarrow> error + 's) \<Rightarrow> 'b list \<Rightarrow> 's \<Rightarrow> error + 's" where
  "efold f [] s = Inr s"
| "efold f (x # xs) s = (case f x s of Inl e \<Rightarrow> Inl e | Inr s' \<Rightarrow> efold f xs s')"

lemma efold_cong [fundef_cong]:
  "xs = ys \<Longrightarrow> s = s' \<Longrightarrow> (\<And>x a. x \<in> set ys \<Longrightarrow> f x a = g x a) \<Longrightarrow> efold f xs s = efold g ys s'"
  by (induction ys arbitrary: xs s s') (auto split: sum.splits)

section \<open>The hashed tree\<close>

text \<open>
  \<open>tree_topology\<close>: the hash map of the branches, the maximal depth reached and the
  coordinate range with its scale.  The entities are held by value in the leaves that
  reference them; the index space \<open>entities_\<close> is not modelled.
\<close>

record 'a tree =
  tree_branch_map :: "'a branch_map"
  tree_max_depth :: nat
  tree_range :: "'a point \<times> 'a point"
  tree_scale :: "'a point"

text \<open>
  \<open>tree_topology::child\<close>, on the branch map of the tree: the slot of the \<open>ci\<close>-th child,
  \<open>None\<close> for \<open>nullptr\<close>.
\<close>

definition child :: "nat \<Rightarrow> 'a branch_map \<Rightarrow> 'a branch \<Rightarrow> nat \<Rightarrow> nat option" where
  "child D m b ci =
     (let bid = push D (br_id b) ci in
      if m bid = None then None else Some bid)"

text \<open>\<open>tree_topology::root\<close>: the slot of the root, which the constructor creates.\<close>

definition root :: "'a tree \<Rightarrow> nat option" where
  "root t = Some root_id"

text \<open>
  \<open>get(branch_id_t)\<close>: the lookup asserts that the key is found and returns the branch; the
  tree is handed back as it was.
\<close>

definition get_branch :: "'a tree \<Rightarrow> nat \<Rightarrow> error + ('a branch \<times> 'a tree)" where
  "get_branch t bid =
     (case tree_branch_map t bid of
        None \<Rightarrow> Inl AssertionFailed
      | Some b \<Rightarrow> Inr (b, t))"

section \<open>Fast multipole evaluation\<close>

text \<open>
  The multipole code fixes three coordinates (\<open>point_t fc = {0.0,0.0,0.0}\<close>, loops to 3).
  IEEE doubles are idealised as reals; where a double division by zero yields an
  infinity or a NaN the model says what the comparison on it returns.
\<close>

definition gdimension :: nat where
  "gdimension = 3"

text \<open>The comparison operators on points defined beside the traversal.\<close>

definition point_eq :: "real point \<Rightarrow> real point \<Rightarrow> bool" where
  "point_eq p1 p2 = list_all (\<lambda>i. \<not> p1 ! i \<noteq> p2 ! i) [0..<gdimension]"

definition point_lt :: "real point \<Rightarrow> real point \<Rightarrow> bool" where
  "point_lt p q = list_all (\<lambda>i. \<not> p ! i > q ! i) [0..<gdimension]"

definition point_gt :: "real point \<Rightarrow> real point \<Rightarrow> bool" where
  "point_gt p q = list_all (\<lambda>i. \<not> p ! i < q ! i) [0..<gdimension]"

text \<open>\<open>flecsi::distance\<close>, the difference of two points and a point scaled.\<close>

definition distance :: "real point \<Rightarrow> real point \<Rightarrow> real" where
  "distance p q = sqrt (sum_list (map2 (\<lambda>a b. (a - b)\<^sup>2) p q))"

definition point_sub :: "real point \<Rightarrow> real point \<Rightarrow> real point" where
  "point_sub p q = map2 (\<lambda>a b. a - b) p q"

definition point_add :: "real point \<Rightarrow> real point \<Rightarrow> real point" where
  "point_add p q = map2 (\<lambda>a b. a + b) p q"

definition point_scale :: "real \<Rightarrow> real point \<Rightarrow> real point" where
  "point_scale c p = map (\<lambda>a. c * a) p"

text \<open>
  The accumulators of a sink: the force, the 3x3 Jacobian and the 3x3x3 Hessian (flat
  arrays of 9 and 27 doubles), and the static counter \<open>count\<close>.
\<close>

record fmm_acc =
  fc :: "real point"
  jacobi :: "real list"
  hessian :: "real list"
  fmm_count :: int

text \<open>
  The C++ condition \<open>i==j==k\<close> parses as \<open>(i==j)==k\<close>: the \<open>bool\<close> on the left is promoted
  to the integer 0 or 1 and compared with \<open>k\<close>.
\<close>

definition chained_eq :: "int \<Rightarrow> int \<Rightarrow> int \<Rightarrow> bool" where
  "chained_eq i j k = ((if i = j then (1::int) else 0) = k)"

text \<open>The factor that multiplies \<open>firstterm\<close> in the Hessian loop of the source.\<close>

definition hessian_factor :: "int \<Rightarrow> int \<Rightarrow> int \<Rightarrow> real" where
  "hessian_factor i j k = (if chained_eq i j k then 1 else 3)"

text \<open>One entry of the Hessian loop body: the value stored at \<open>position\<close>.\<close>

definition hessian_entry :: "real \<Rightarrow> real \<Rightarrow> real point \<Rightarrow> nat \<Rightarrow> nat \<Rightarrow> nat \<Rightarrow> real" where
  "hessian_entry hessiancoeff dst diffPos i j k =
     (let firstterm = 0;
          firstterm = (if i = j then firstterm + hessiancoeff * diffPos ! k else firstterm);
          firstterm = (if j = k then firstterm + hessiancoeff * diffPos ! i else firstterm);
          firstterm = (if k = i then firstterm + hessiancoeff * diffPos ! j else firstterm);
          firstterm = firstterm * hessian_factor (int i) (int j) (int k)
      in 0 + firstterm
           + hessiancoeff * (- 5) / (dst * dst) * (diffPos ! i) * (diffPos ! j) * (diffPos ! k))"

text \<open>
  The entry as the comparison with the triple equality would give it: the same body with
  the guard \<open>i = j \<and> j = k\<close> in place of \<open>i==j==k\<close>.
\<close>

definition hessian_entry_triple_equality ::
  "real \<Rightarrow> real \<Rightarrow> real point \<Rightarrow> nat \<Rightarrow> nat \<Rightarrow> nat \<Rightarrow> real" where
  "hessian_entry_triple_equality hessiancoeff dst diffPos i j k =
     (let firstterm = 0;
          firstterm = (if i = j then firstterm + hessiancoeff * diffPos ! k else firstterm);
          firstterm = (if j = k then firstterm + hessiancoeff * diffPos ! i else firstterm);
          firstterm = (if k = i then firstterm + hessiancoeff * diffPos ! j else firstterm);
          firstterm = firstterm * (if i = j \<and> j = k then 1 else 3)
      in 0 + firstterm
           + hessiancoeff * (- 5) / (dst * dst) * (diffPos ! i) * (diffPos ! j) * (diffPos ! k))"

text \<open>
  \<open>computeAcceleration\<close>.  The assertion \<open>dist > 0.0\<close> is the failure branch.  The
  Jacobian is accumulated; the Hessian entry is first reset (\<open>hessian[position] = 0.0\<close>).
\<close>

definition computeAcceleration ::
  "real point \<Rightarrow> real point \<Rightarrow> real \<Rightarrow> fmm_acc \<Rightarrow> error + fmm_acc" where
  "computeAcceleration sinkPosition sourcePosition sourceMass acc =
     (let dst = distance sinkPosition sourcePosition in
      if \<not> dst > 0 then Inl AssertionFailed
      else
        let diffPos = point_sub sinkPosition sourcePosition;
            fc' = point_add (fc acc) (point_scale (- sourceMass / (dst * dst * dst)) diffPos);
            jacobicoeff = - sourceMass / (dst * dst * dst);
            jacobi' = fold (\<lambda>i J. fold (\<lambda>j J.
                 if i = j
                 then J[i * 3 + j := J ! (i * 3 + j) + jacobicoeff *
                        (1 - 3 * (diffPos ! i) * (diffPos ! j) / (dst * dst))]
                 else J[i * 3 + j := J ! (i * 3 + j) + jacobicoeff *
                        (- 3 * (diffPos ! i) * (diffPos ! j) / (dst * dst))])
               [0..<3] J) [0..<3] (jacobi acc);
            hessiancoeff = - 3 * sourceMass / (dst * dst * dst * dst * dst);
            hessian' = fold (\<lambda>i H. fold (\<lambda>j H. fold (\<lambda>k H.
                 H[i * 9 + j * 3 + k := hessian_entry hessiancoeff dst diffPos i j k])
               [0..<3] H) [0..<3] H) [0..<3] (hessian acc)
        in Inr (acc\<lparr>fc := fc', jacobi := jacobi', hessian := hessian'\<rparr>))"

text \<open>
  \<open>MAC\<close>.  In doubles a zero distance gives \<open>dmax/0\<close>, an infinity or a NaN, and the
  comparison with the angle is false.
\<close>

definition MAC :: "real branch \<Rightarrow> real branch \<Rightarrow> real \<Rightarrow> bool" where
  "MAC sink source macangle =
     (let dmax = distance (br_bmin source) (br_bmax source);
          disttoc = distance (br_coordinates sink) (br_coordinates source)
      in if disttoc = 0 then False else dmax / disttoc < macangle)"

text \<open>
  \<open>tree_traversal_c2c\<close>.  The sink is a branch value, the source a pointer into the tree.
  The first argument bounds the depth of the recursion.
\<close>

fun tree_traversal_c2c ::
  "nat \<Rightarrow> real tree \<Rightarrow> real branch \<Rightarrow> nat option \<Rightarrow> fmm_acc \<Rightarrow> real \<Rightarrow> error + fmm_acc" where
  "tree_traversal_c2c 0 t sink source acc macangle = Inl OutOfFuel"
| "tree_traversal_c2c (Suc n) t sink source acc macangle =
     (case source of None \<Rightarrow> Inl NullPointer | Some key \<Rightarrow>
      (case tree_branch_map t key of None \<Rightarrow> Inl NullPointer | Some src \<Rightarrow>
        if br_mass src = 0 then Inr acc
        else if point_eq (br_bmin sink) (br_bmin src) \<and> point_eq (br_bmax sink) (br_bmax src)
          then Inr acc
        else if point_lt (br_bmin sink) (br_bmin src) \<and> point_gt (br_bmax sink) (br_bmax src)
          then Inr acc
        else if MAC sink src macangle
          then computeAcceleration (br_coordinates sink) (br_coordinates src) (br_mass src) acc
        else if br_leaf src
          then efold (\<lambda>bi acc.
                 if is_local bi then
                   if point_lt (ent_coordinates bi) (br_bmax sink) \<and>
                      point_gt (ent_coordinates bi) (br_bmin sink)
                   then Inr acc
                   else (case computeAcceleration (br_coordinates sink) (ent_coordinates bi)
                                (ent_mass bi) acc of
                           Inl e \<Rightarrow> Inl e
                         | Inr acc' \<Rightarrow> Inr (acc'\<lparr>fmm_count := fmm_count acc' + 1\<rparr>))
                 else Inr acc) (br_ents src) acc
        else efold (\<lambda>i acc. tree_traversal_c2c n t sink (child gdimension (tree_branch_map t) src i) acc macangle)
               [0..<2 ^ gdimension] acc))"

text \<open>
  The body of the particle loop of \<open>sink_traversal_c2p\<close>: the value handed to
  \<open>setGravForce\<close>.  \<open>tmpMatrix\<close> and \<open>tmpVector\<close> are uninitialised arrays; every entry is
  assigned before it is read, so their initial content does not matter.
\<close>

definition c2p_grav :: "real point \<Rightarrow> real list \<Rightarrow> real list \<Rightarrow> real point \<Rightarrow> real point" where
  "c2p_grav fc0 jac hes diffPos =
     (let grav = fc0;
          grav = fold (\<lambda>i g. fold (\<lambda>j g. g[i := g ! i + jac ! (i * 3 + j) * diffPos ! j])
                   [0..<3] g) [0..<3] grav;
          tmpMatrix = fold (\<lambda>i M. fold (\<lambda>j M. fold (\<lambda>k M.
                   (let M = M[i * 3 + j := 0]
                    in M[i * 3 + j := M ! (i * 3 + j) + diffPos ! k * hes ! (i * 9 + j + k * 3)]))
                 [0..<3] M) [0..<3] M) [0..<3] (replicate 9 0);
          tmpVector = fold (\<lambda>i V. fold (\<lambda>j V.
                   (let V = V[i := 0]
                    in V[i := V ! i + tmpMatrix ! (i * 3 + j) * diffPos ! j]))
                 [0..<3] V) [0..<3] (replicate 3 0)
      in fold (\<lambda>i g. g[i := g ! i + 1 / 2 * tmpVector ! i]) [0..<3] grav)"

text \<open>
  The effects of the push-down: the gravitational force stored in each body (bodies are
  named by the id of their holder), the vector \<open>neighbors\<close>, and the counters.
\<close>

record c2p_state =
  gravForce :: "nat \<Rightarrow> real point option"
  neighbors :: "nat list"
  nbody :: int
  c2p_count :: int

text \<open>\<open>sink_traversal_c2p\<close>.\<close>

fun sink_traversal_c2p ::
  "nat \<Rightarrow> real tree \<Rightarrow> nat option \<Rightarrow> real point \<Rightarrow> real point \<Rightarrow> real list \<Rightarrow> real list
     \<Rightarrow> c2p_state \<Rightarrow> error + c2p_state" where
  "sink_traversal_c2p 0 t b sinkPosition fc0 jac hes st = Inl OutOfFuel"
| "sink_traversal_c2p (Suc n) t b sinkPosition fc0 jac hes st =
     (case b of None \<Rightarrow> Inl NullPointer | Some key \<Rightarrow>
      (case tree_branch_map t key of None \<Rightarrow> Inl NullPointer | Some br \<Rightarrow>
        if br_mass br \<le> 0 then Inr st
        else if br_leaf br
          then Inr (fold (\<lambda>bi st.
                 if \<not> is_local bi then st
                 else
                   let diffPos = point_sub (ent_coordinates bi) sinkPosition;
                       grav = c2p_grav fc0 jac hes diffPos
                   in st\<lparr>neighbors := neighbors st @ [ent_id bi],
                         gravForce := (gravForce st)(ent_id bi \<mapsto> grav),
                         nbody := nbody st + 1,
                         c2p_count := c2p_count st + 1\<rparr>) (br_ents br) st)
        else efold (\<lambda>i st. sink_traversal_c2p n t (child gdimension (tree_branch_map t) br i) sinkPosition fc0 jac hes st)
               [0..<2 ^ gdimension] st))"

text \<open>
  The value the specification gives for the push-down, written from its words
  (\<open>g = F + J\<cdot>\<Delta> + \<onehalf>\<cdot>\<Delta>\<^sup>T\<cdot>H\<cdot>\<Delta>\<close>, the Jacobian term summed over \<open>j\<close>, the Hessian term over
  \<open>j\<close> and \<open>k\<close>), for comparison with \<open>c2p_grav\<close>.
\<close>

definition taylor_expansion_spec ::
  "real point \<Rightarrow> real list \<Rightarrow> real list \<Rightarrow> real point \<Rightarrow> real point" where
  "taylor_expansion_spec F J H \<Delta> =
     map (\<lambda>i. F ! i + (\<Sum>j<3. J ! (i * 3 + j) * \<Delta> ! j)
                + 1 / 2 * (\<Sum>j<3. \<Sum>k<3. \<Delta> ! k * H ! (i * 9 + j * 3 + k) * \<Delta> ! j)) [0..<3]"

section \<open>Aggregation of the branches\<close>

text \<open>\<open>std::max\<close> and \<open>std::min\<close>, by the comparison \<open><\<close> of the element type.\<close>

definition std_max :: "'a::ord \<Rightarrow> 'a \<Rightarrow> 'a" where
  "std_max a b = (if a < b then b else a)"

definition std_min :: "'a::ord \<Rightarrow> 'a \<Rightarrow> 'a" where
  "std_min a b = (if b < a then b else a)"

text \<open>The point that a loop \<open>for(d = 0; d < dimension; ++d) p[d] = f(d)\<close> leaves in \<open>p\<close>.\<close>

definition for_dims :: "nat \<Rightarrow> (nat \<Rightarrow> 'b) \<Rightarrow> 'b list" where
  "for_dims D f = map f [0..<D]"

text \<open>The local variables of the lambda \<open>traverse\<close>.\<close>

record 'a com_acc =
  com_mass :: 'a
  com_bmax :: "'a point"
  com_bmin :: "'a point"
  com_coordinates :: "'a point"
  com_nchildren :: nat

text \<open>
  The recursive lambda \<open>traverse\<close> that \<open>update_branches\<close>, \<open>update_branches_local\<close> and
  \<open>tree_traversal_com\<close> each define: at a leaf the loop over the entities, at an inner
  branch the loop over the \<open>2\<^sup>D\<close> children (the child is traversed, then its aggregates
  are read), and at the end the aggregates are stored in the branch.  \<open>leaf\<close> and \<open>node\<close>
  are the two loop bodies, \<open>init\<close> the initial values of the local variables, \<open>save\<close> the
  final stores.  The argument \<open>n\<close> bounds the depth of the recursion.
\<close>

fun post_order ::
  "('a entity \<Rightarrow> 'c \<Rightarrow> error + 'c) \<Rightarrow> ('a branch \<Rightarrow> 'c \<Rightarrow> error + 'c) \<Rightarrow> 'c
     \<Rightarrow> ('c \<Rightarrow> 'a branch \<Rightarrow> error + 'a branch)
     \<Rightarrow> nat \<Rightarrow> nat \<Rightarrow> 'a branch_map \<Rightarrow> nat option \<Rightarrow> error + 'a branch_map" where
  "post_order leaf node init save D 0 m b = Inl OutOfFuel"
| "post_order leaf node init save D (Suc n) m b =
     (case b of None \<Rightarrow> Inl NullPointer | Some key \<Rightarrow>
      (case m key of None \<Rightarrow> Inl NullPointer | Some br \<Rightarrow>
        (case (if br_leaf br
               then (case efold leaf (br_ents br) init of
                       Inl e \<Rightarrow> Inl e
                     | Inr acc \<Rightarrow> Inr (m, acc))
               else efold (\<lambda>i (m, acc).
                      let branch = child D m br i in
                      (case post_order leaf node init save D n m branch of
                         Inl e \<Rightarrow> Inl e
                       | Inr m' \<Rightarrow>
                          (case branch of None \<Rightarrow> Inl NullPointer | Some ck \<Rightarrow>
                           (case m' ck of None \<Rightarrow> Inl NullPointer | Some cb \<Rightarrow>
                            (case node cb acc of
                               Inl e \<Rightarrow> Inl e
                             | Inr acc' \<Rightarrow> Inr (m', acc'))))))
                    [0..<2 ^ D] (m, init)) of
           Inl e \<Rightarrow> Inl e
         | Inr (m', acc) \<Rightarrow>
            (case m' key of None \<Rightarrow> Inl NullPointer | Some b' \<Rightarrow>
             (case save acc b' of
                Inl e \<Rightarrow> Inl e
              | Inr b'' \<Rightarrow> Inr (m'(key \<mapsto> b'')))))))"

text \<open>
  \<open>update_branches\<close>.  \<open>dbl_max\<close> stands for \<open>DBL_MAX\<close>; the carrier is any type with the
  operations used.
\<close>

definition update_branches_init ::
  "nat \<Rightarrow> 'a \<Rightarrow> ('a::{zero,plus,minus,uminus,times,inverse,ord}) com_acc" where
  "update_branches_init D dbl_max =
     \<lparr>com_mass = 0, com_bmax = for_dims D (\<lambda>d. - dbl_max), com_bmin = for_dims D (\<lambda>d. dbl_max),
      com_coordinates = for_dims D (\<lambda>d. 0), com_nchildren = 0\<rparr>"

definition update_branches_leaf ::
  "nat \<Rightarrow> 'a \<Rightarrow> 'a entity \<Rightarrow> 'a com_acc
     \<Rightarrow> error + ('a::{zero,plus,minus,uminus,times,inverse,ord}) com_acc" where
  "update_branches_leaf D epsilon child' acc =
     (let childmass = ent_mass child' in
      Inr (acc\<lparr>com_nchildren := com_nchildren acc + 1,
               com_bmax := for_dims D (\<lambda>d.
                  std_max (com_bmax acc ! d) (ent_coordinates child' ! d + epsilon)),
               com_bmin := for_dims D (\<lambda>d.
                  std_min (com_bmin acc ! d) (ent_coordinates child' ! d - epsilon)),
               com_coordinates := for_dims D (\<lambda>d.
                  com_coordinates acc ! d + ent_coordinates child' ! d * childmass),
               com_mass := com_mass acc + childmass\<rparr>))"

definition update_branches_node ::
  "nat \<Rightarrow> 'a branch \<Rightarrow> 'a com_acc
     \<Rightarrow> error + ('a::{zero,plus,minus,uminus,times,inverse,ord}) com_acc" where
  "update_branches_node D branch acc =
     Inr (acc\<lparr>com_nchildren := com_nchildren acc + br_sub_entities branch,
              com_mass := com_mass acc + br_mass branch,
              com_bmax := (if br_mass branch > 0
                 then for_dims D (\<lambda>d. std_max (com_bmax acc ! d) (br_bmax branch ! d))
                 else com_bmax acc),
              com_bmin := (if br_mass branch > 0
                 then for_dims D (\<lambda>d. std_min (com_bmin acc ! d) (br_bmin branch ! d))
                 else com_bmin acc),
              com_coordinates := for_dims D (\<lambda>d.
                 com_coordinates acc ! d + br_coordinates branch ! d * br_mass branch)\<rparr>)"

definition update_branches_save ::
  "nat \<Rightarrow> 'a com_acc \<Rightarrow> 'a branch
     \<Rightarrow> error + ('a::{zero,plus,minus,uminus,times,inverse,ord}) branch" where
  "update_branches_save D acc b =
     (let coordinates = (if com_mass acc > 0
            then for_dims D (\<lambda>d. com_coordinates acc ! d / com_mass acc)
            else com_coordinates acc)
      in Inr (b\<lparr>br_sub_entities := com_nchildren acc,
                 br_coordinates := coordinates,
                 br_mass := com_mass acc,
                 br_bmin := com_bmin acc,
                 br_bmax := com_bmax acc\<rparr>))"

definition update_branches ::
  "nat \<Rightarrow> 'a \<Rightarrow> nat \<Rightarrow> 'a \<Rightarrow> 'a tree
     \<Rightarrow> error + ('a::{zero,plus,minus,uminus,times,inverse,ord}) tree" where
  "update_branches D dbl_max n epsilon t =
     (case post_order (update_branches_leaf D epsilon) (update_branches_node D)
             (update_branches_init D dbl_max) (update_branches_save D) D n
             (tree_branch_map t) (root t) of
        Inl e \<Rightarrow> Inl e
      | Inr m \<Rightarrow> Inr (t\<lparr>tree_branch_map := m\<rparr>))"

text \<open>
  \<open>tree_traversal_com\<close>, over the reals, with three coordinates.  Only local particles
  count; the assertions on the masses are failure branches (the assertions that a value
  is not a NaN have no counterpart over the reals).  The number of sub-entities of a
  branch is not written.
\<close>

definition tree_traversal_com_init :: "real com_acc" where
  "tree_traversal_com_init =
     \<lparr>com_mass = 0, com_bmax = [- 99999, - 99999, - 99999], com_bmin = [99999, 99999, 99999],
      com_coordinates = [0, 0, 0], com_nchildren = 0\<rparr>"

definition tree_traversal_com_leaf :: "real entity \<Rightarrow> real com_acc \<Rightarrow> error + real com_acc" where
  "tree_traversal_com_leaf child' acc =
     (if is_local child' then
        if \<not> ent_mass child' > 0 then Inl AssertionFailed
        else Inr (acc\<lparr>
          com_coordinates := point_add (com_coordinates acc)
             (point_scale (ent_mass child') (ent_coordinates child')),
          com_mass := com_mass acc + ent_mass child',
          com_bmax := for_dims gdimension (\<lambda>i.
             if com_bmax acc ! i < ent_coordinates child' ! i then ent_coordinates child' ! i
             else com_bmax acc ! i),
          com_bmin := for_dims gdimension (\<lambda>i.
             if com_bmin acc ! i > ent_coordinates child' ! i then ent_coordinates child' ! i
             else com_bmin acc ! i)\<rparr>)
      else Inr acc)"

definition tree_traversal_com_node :: "real branch \<Rightarrow> real com_acc \<Rightarrow> error + real com_acc" where
  "tree_traversal_com_node branch acc =
     Inr (acc\<lparr>
       com_coordinates := point_add (com_coordinates acc)
          (point_scale (br_mass branch) (br_coordinates branch)),
       com_mass := com_mass acc + br_mass branch,
       com_bmax := for_dims gdimension (\<lambda>i.
          if com_bmax acc ! i < br_bmax branch ! i then br_bmax branch ! i else com_bmax acc ! i),
       com_bmin := for_dims gdimension (\<lambda>i.
          if com_bmin acc ! i > br_bmin branch ! i then br_bmin branch ! i else com_bmin acc ! i)\<rparr>)"

definition tree_traversal_com_save :: "real com_acc \<Rightarrow> real branch \<Rightarrow> error + real branch" where
  "tree_traversal_com_save acc b =
     (let com = (if com_mass acc > 0
            then map (\<lambda>c. c / com_mass acc) (com_coordinates acc)
            else com_coordinates acc)
      in if \<not> com_mass acc \<ge> 0 then Inl AssertionFailed
         else Inr (b\<lparr>br_mass := com_mass acc, br_coordinates := com,
                       br_bmax := com_bmax acc, br_bmin := com_bmin acc\<rparr>))"

definition tree_traversal_com :: "nat \<Rightarrow> real tree \<Rightarrow> error + real tree" where
  "tree_traversal_com n t =
     (case post_order tree_traversal_com_leaf tree_traversal_com_node tree_traversal_com_init
             tree_traversal_com_save gdimension n (tree_branch_map t) (root t) of
        Inl e \<Rightarrow> Inl e
      | Inr m \<Rightarrow> Inr (t\<lparr>tree_branch_map := m\<rparr>))"

text \<open>
  What a traversal leaves alone in a branch: \<open>update_branches\<close> writes the five aggregates,
  \<open>tree_traversal_com\<close> writes all of them but the number of sub-entities.
\<close>

definition branch_structure :: "'a branch \<Rightarrow> nat \<times> bool \<times> 'a entity list \<times> action" where
  "branch_structure b = (br_id b, br_leaf b, br_ents b, br_action b)"

definition branch_structure_com :: "'a branch \<Rightarrow> nat \<times> bool \<times> 'a entity list \<times> action \<times> nat" where
  "branch_structure_com b = (br_id b, br_leaf b, br_ents b, br_action b, br_sub_entities b)"

section \<open>Insertion, refinement and coarsening\<close>

text \<open>
  Modelled from the spec: the Morton key of a point, \<open>depth\<close> and \<open>truncate\<close> of
  \<open>morton_branch_id.h\<close>, which is not among the sources.  Each coordinate is normalised by
  the range; level \<open>l\<close> of the key holds, for each dimension, the \<open>l\<close>-th binary digit of the
  normalised coordinate.
\<close>

definition level_selector :: "nat \<Rightarrow> real point \<times> real point \<Rightarrow> real point \<Rightarrow> nat \<Rightarrow> nat" where
  "level_selector D rng p l =
     sum_list (map (\<lambda>j.
        (nat \<lfloor>(p ! j - fst rng ! j) / (snd rng ! j - fst rng ! j) * 2 ^ l\<rfloor> mod 2) * 2 ^ j)
        [0..<D])"

definition to_branch_id :: "nat \<Rightarrow> real point \<times> real point \<Rightarrow> real point \<Rightarrow> nat \<Rightarrow> nat" where
  "to_branch_id D rng p depth =
     foldl (\<lambda>k l. push D k (level_selector D rng p l)) root_id [1..<Suc depth]"

definition key_depth :: "nat \<Rightarrow> nat \<Rightarrow> nat" where
  "key_depth D k = (floorlog 2 k - 1) div D"

definition truncate :: "nat \<Rightarrow> nat \<Rightarrow> nat \<Rightarrow> nat" where
  "truncate D k to_depth =
     (let d = key_depth D k in
      if d < to_depth then k else k div 2 ^ ((d - to_depth) * D))"

text \<open>
  Modelled from the spec: the constructor of a branch and the policy's \<open>insert\<close> of an
  entity into a branch (\<open>tree_branch.h\<close> and the policy are not among the sources).  A new
  branch is an empty leaf; a branch that holds more than \<open>max_leaf\<close> entities after an
  insertion requests refinement.
\<close>

definition new_branch :: "nat \<Rightarrow> real branch" where
  "new_branch k = \<lparr>br_id = k, br_leaf = True, br_ents = [], br_action = action_none,
     br_mass = 0, br_coordinates = [], br_bmin = [], br_bmax = [], br_sub_entities = 0\<rparr>"

definition branch_insert :: "nat \<Rightarrow> 'a branch \<Rightarrow> 'a entity \<Rightarrow> 'a branch" where
  "branch_insert max_leaf b e =
     (let b' = b\<lparr>br_ents := br_ents b @ [e]\<rparr> in
      if length (br_ents b') > max_leaf then b'\<lparr>br_action := action_refine\<rparr> else b')"

text \<open>\<open>branch_map_.emplace(cid, cid)\<close>: a key that is already in the map keeps its branch.\<close>

definition emplace :: "real branch_map \<Rightarrow> nat \<Rightarrow> real branch_map" where
  "emplace m cid = (if m cid = None then m(cid \<mapsto> new_branch cid) else m)"

text \<open>The constructor \<open>tree_topology(start, end)\<close>.\<close>

definition tree_topology :: "real point \<Rightarrow> real point \<Rightarrow> real tree" where
  "tree_topology start end' =
     \<lparr>tree_branch_map = emplace Map.empty root_id, tree_max_depth = 0,
      tree_range = (start, end'), tree_scale = map2 (\<lambda>e s. e - s) end' start\<rparr>"

text \<open>
  \<open>find_parent_\<close>: the loop pops the id until a branch is found; it has no other exit, so
  a run that finds none does not return (\<open>None\<close>).
\<close>

partial_function (option) find_parent' :: "nat \<Rightarrow> 'a branch_map \<Rightarrow> nat \<Rightarrow> nat option" where
  "find_parent' D m bid =
     (case m bid of
        Some b \<Rightarrow> Some bid
      | None \<Rightarrow> find_parent' D m (pop D bid))"

declare find_parent'.simps [code]

text \<open>\<open>find_parent(bid, max_depth)\<close>.\<close>

definition find_parent :: "nat \<Rightarrow> 'a branch_map \<Rightarrow> nat \<Rightarrow> nat \<Rightarrow> nat option" where
  "find_parent D m bid max_depth = find_parent' D m (truncate D bid max_depth)"

text \<open>
  \<open>insert(ent, max_depth)\<close> and \<open>refine_\<close>, which call each other; the first argument
  bounds the depth of the recursion.
\<close>

fun insert_at :: "nat \<Rightarrow> nat \<Rightarrow> nat \<Rightarrow> real tree \<Rightarrow> real entity \<Rightarrow> nat \<Rightarrow> error + real tree"
  and refine' :: "nat \<Rightarrow> nat \<Rightarrow> nat \<Rightarrow> real tree \<Rightarrow> nat \<Rightarrow> error + real tree" where
  "insert_at 0 D max_leaf t ent max_depth = Inl OutOfFuel"
| "insert_at (Suc n) D max_leaf t ent max_depth =
     (let bid = to_branch_id D (tree_range t) (ent_coordinates ent) max_depth in
      (case find_parent D (tree_branch_map t) bid max_depth of
         None \<Rightarrow> Inl OutOfFuel
       | Some kb \<Rightarrow>
          (case tree_branch_map t kb of None \<Rightarrow> Inl NullPointer | Some b \<Rightarrow>
             let b' = branch_insert max_leaf b (ent\<lparr>ent_branch_id := br_id b\<rparr>);
                 t1 = t\<lparr>tree_branch_map := (tree_branch_map t)(kb \<mapsto> b')\<rparr>
             in (case br_action b' of
                   action_none \<Rightarrow> Inr t1
                 | action_refine \<Rightarrow> refine' n D max_leaf t1 kb
                 | action_coarsen \<Rightarrow> Inl AssertionFailed))))"
| "refine' 0 D max_leaf t kb = Inl OutOfFuel"
| "refine' (Suc n) D max_leaf t kb =
     (case tree_branch_map t kb of None \<Rightarrow> Inl NullPointer | Some b \<Rightarrow>
        let pid = br_id b;
            depth = key_depth D pid + 1;
            m1 = fold (\<lambda>i m. emplace m (push D pid i)) [0..<2 ^ D] (tree_branch_map t);
            t1 = t\<lparr>tree_branch_map := m1, tree_max_depth := max (tree_max_depth t) depth\<rparr>
        in (case efold (\<lambda>ent t. insert_at n D max_leaf t ent depth) (br_ents b) t1 of
              Inl e \<Rightarrow> Inl e
            | Inr t2 \<Rightarrow>
               (case tree_branch_map t2 kb of None \<Rightarrow> Inl NullPointer | Some b2 \<Rightarrow>
                  Inr (t2\<lparr>tree_branch_map := (tree_branch_map t2)
                         (kb \<mapsto> b2\<lparr>br_leaf := False, br_ents := [], br_action := action_none\<rparr>)\<rparr>))))"

text \<open>The public \<open>insert(ent)\<close>.\<close>

definition tree_insert :: "nat \<Rightarrow> nat \<Rightarrow> nat \<Rightarrow> real tree \<Rightarrow> real entity \<Rightarrow> error + real tree" where
  "tree_insert n D max_leaf t ent = insert_at n D max_leaf t ent (tree_max_depth t)"

text \<open>
  \<open>coarsen_(p, b)\<close>: the entities of every descendant of \<open>b\<close> are inserted into \<open>p\<close>, and the
  descendants are erased from the map.  \<open>child_\<close> of the branch class is the lookup of the
  child in the map.
\<close>

fun coarsen_rec ::
  "nat \<Rightarrow> nat \<Rightarrow> nat \<Rightarrow> real branch_map \<Rightarrow> nat \<Rightarrow> nat option \<Rightarrow> error + real branch_map" where
  "coarsen_rec 0 D max_leaf m p b = Inl OutOfFuel"
| "coarsen_rec (Suc n) D max_leaf m p b =
     (case b of None \<Rightarrow> Inl NullPointer | Some kb \<Rightarrow>
      (case m kb of None \<Rightarrow> Inl NullPointer | Some bb \<Rightarrow>
        if br_leaf bb then Inr m
        else efold (\<lambda>i m.
               let ci = child D m bb i in
               (case ci of None \<Rightarrow> Inl NullPointer | Some kc \<Rightarrow>
                (case m kc of None \<Rightarrow> Inl NullPointer | Some cb \<Rightarrow>
                 (case m p of None \<Rightarrow> Inl NullPointer | Some pb \<Rightarrow>
                    let m1 = m(p \<mapsto> fold (\<lambda>ent pb.
                                 branch_insert max_leaf pb (ent\<lparr>ent_branch_id := br_id pb\<rparr>))
                               (br_ents cb) pb)
                    in (case coarsen_rec n D max_leaf m1 p ci of
                          Inl e \<Rightarrow> Inl e
                        | Inr m2 \<Rightarrow>
                           (case m2 kc of None \<Rightarrow> Inl NullPointer
                            | Some cb2 \<Rightarrow> Inr (m2(br_id cb2 := None))))))))
             [0..<2 ^ D] m))"

text \<open>\<open>coarsen_(p)\<close>.\<close>

definition coarsen' :: "nat \<Rightarrow> nat \<Rightarrow> nat \<Rightarrow> real tree \<Rightarrow> nat \<Rightarrow> error + real tree" where
  "coarsen' n D max_leaf t p =
     (case coarsen_rec n D max_leaf (tree_branch_map t) p (Some p) of
        Inl e \<Rightarrow> Inl e
      | Inr m \<Rightarrow>
         (case m p of None \<Rightarrow> Inl NullPointer
          | Some pb \<Rightarrow>
             Inr (t\<lparr>tree_branch_map := m(p \<mapsto> pb\<lparr>br_leaf := True, br_action := action_none\<rparr>)\<rparr>)))"

text \<open>
  The trees that the constructor, \<open>insert\<close>, \<open>refine_\<close> and \<open>coarsen_\<close> produce; \<open>refine_\<close> and
  \<open>coarsen_\<close> are handed a branch of the tree.
\<close>

inductive reachable :: "nat \<Rightarrow> nat \<Rightarrow> real tree \<Rightarrow> bool" for D max_leaf where
  initial: "reachable D max_leaf (tree_topology start end')"
| by_insert: "reachable D max_leaf t \<Longrightarrow> tree_insert n D max_leaf t ent = Inr t'
     \<Longrightarrow> reachable D max_leaf t'"
| by_refine: "reachable D max_leaf t \<Longrightarrow> tree_branch_map t kb \<noteq> None
     \<Longrightarrow> refine' n D max_leaf t kb = Inr t' \<Longrightarrow> reachable D max_leaf t'"
| by_coarsen: "reachable D max_leaf t \<Longrightarrow> tree_branch_map t p \<noteq> None
     \<Longrightarrow> coarsen' n D max_leaf t p = Inr t' \<Longrightarrow> reachable D max_leaf t'"

text \<open>The invariant of claim C9 for a branch map.\<close>

definition children_present :: "nat \<Rightarrow> 'a branch_map \<Rightarrow> bool" where
  "children_present D m =
     (\<forall>k b. m k = Some b \<longrightarrow>
        br_id b = k \<and> (\<not> br_leaf b \<longrightarrow> (\<forall>i<2 ^ D. m (push D k i) \<noteq> None)))"

section \<open>Search in a radius\<close>

text \<open>
  Modelled from the spec: the predicates of \<open>tree_geometry.h\<close>, which is not among the
  sources.  A point is within a sphere when its Euclidean distance to the centre is at
  most the radius; a sphere meets an axis-aligned box when the point of the box that is
  closest to the centre is within the sphere.
\<close>

definition within' :: "real point \<Rightarrow> real point \<Rightarrow> real \<Rightarrow> bool" where
  "within' origin center r = (distance origin center \<le> r)"

definition intersects_sphere_box :: "real point \<Rightarrow> real point \<Rightarrow> real point \<Rightarrow> real \<Rightarrow> bool" where
  "intersects_sphere_box bmin bmax c r =
     (let x = map (\<lambda>(lo, hi, cd). std_max lo (std_min cd hi)) (zip bmin (zip bmax c))
      in distance x c \<le> r)"

text \<open>
  \<open>find_in_radius_b\<close>: the loop over the stack of branches; the head of the list is the top
  of the stack.  The first argument bounds the number of iterations.
\<close>

fun find_in_radius_b_loop ::
  "nat \<Rightarrow> nat \<Rightarrow> real tree \<Rightarrow> real point \<Rightarrow> real \<Rightarrow> nat list \<Rightarrow> real entity list
     \<Rightarrow> error + real entity list" where
  "find_in_radius_b_loop 0 D t center radius stk ents =
     (case stk of [] \<Rightarrow> Inr ents | b # rest \<Rightarrow> Inl OutOfFuel)"
| "find_in_radius_b_loop (Suc n) D t center radius stk ents =
     (case stk of [] \<Rightarrow> Inr ents | b # rest \<Rightarrow>
      (case tree_branch_map t b of None \<Rightarrow> Inl NullPointer | Some br \<Rightarrow>
        if br_leaf br
        then find_in_radius_b_loop n D t center radius rest
               (ents @ filter (\<lambda>c. within' center (ent_coordinates c) radius) (br_ents br))
        else (case efold (\<lambda>i stk.
                      (case child D (tree_branch_map t) br i of None \<Rightarrow> Inl NullPointer
                       | Some kc \<Rightarrow>
                          (case tree_branch_map t kc of None \<Rightarrow> Inl NullPointer | Some cb \<Rightarrow>
                             Inr (if intersects_sphere_box (br_bmin cb) (br_bmax cb) center radius
                                  then kc # stk else stk))))
                    [0..<2 ^ D] rest of
                Inl e \<Rightarrow> Inl e
              | Inr stk' \<Rightarrow> find_in_radius_b_loop n D t center radius stk' ents)))"

definition find_in_radius_b ::
  "nat \<Rightarrow> nat \<Rightarrow> real tree \<Rightarrow> real point \<Rightarrow> real \<Rightarrow> error + real entity list" where
  "find_in_radius_b n D t center radius =
     (case root t of None \<Rightarrow> Inl NullPointer
      | Some r \<Rightarrow> find_in_radius_b_loop n D t center radius [r] [])"

section \<open>Applying a function to the local entities and their neighbours\<close>

text \<open>
  Modelled from the spec: \<open>geometry_t::intersects_box_box\<close> of \<open>tree_geometry.h\<close>, which is not
  among the sources.  Two axis-aligned boxes meet when their extents overlap in every
  dimension.
\<close>

definition intersects_box_box :: "real point \<Rightarrow> real point \<Rightarrow> real point \<Rightarrow> real point \<Rightarrow> bool" where
  "intersects_box_box min_b1 max_b1 min_b2 max_b2 =
     list_all (\<lambda>d. min_b1 ! d \<le> max_b2 ! d \<and> min_b2 ! d \<le> max_b1 ! d) [0..<length min_b1]"

text \<open>
  The loop that \<open>apply_sub_cells\<close>, \<open>sub_cells_inter\<close> and \<open>force_calc\<close> each run over a
  \<open>std::stack\<close> of branches: the top branch \<open>c\<close> is popped; when \<open>stop c\<close> holds the body
  \<open>visit\<close> is run on it, otherwise each of its \<open>2\<^sup>D\<close> children is looked up with \<open>child\<close> and
  pushed when \<open>keep\<close> holds of it.  The head of the list is the top of the stack; the
  argument \<open>n\<close> bounds the number of iterations.
\<close>

fun walk ::
  "('a branch \<Rightarrow> bool) \<Rightarrow> ('a branch \<Rightarrow> bool) \<Rightarrow> (nat \<Rightarrow> 'a branch \<Rightarrow> 'c \<Rightarrow> error + 'c)
     \<Rightarrow> nat \<Rightarrow> nat \<Rightarrow> 'a branch_map \<Rightarrow> nat list \<Rightarrow> 'c \<Rightarrow> error + 'c" where
  "walk stop keep visit D 0 m stk acc =
     (case stk of [] \<Rightarrow> Inr acc | c # rest \<Rightarrow> Inl OutOfFuel)"
| "walk stop keep visit D (Suc n) m stk acc =
     (case stk of [] \<Rightarrow> Inr acc | c # rest \<Rightarrow>
      (case m c of None \<Rightarrow> Inl NullPointer | Some cb \<Rightarrow>
        if stop cb
        then (case visit c cb acc of
                Inl e \<Rightarrow> Inl e
              | Inr acc' \<Rightarrow> walk stop keep visit D n m rest acc')
        else (case efold (\<lambda>i stk.
                      (case child D m cb i of None \<Rightarrow> Inl NullPointer
                       | Some kn \<Rightarrow>
                          (case m kn of None \<Rightarrow> Inl NullPointer
                           | Some next \<Rightarrow> Inr (if keep next then kn # stk else stk))))
                    [0..<2 ^ D] rest of
                Inl e \<Rightarrow> Inl e
              | Inr stk' \<Rightarrow> walk stop keep visit D n m stk' acc)))"

text \<open>
  \<open>sub_cells_inter\<close>: the leaves, from the root, that are reached through children with
  sub-entities whose box meets the box of \<open>b\<close>.  The argument \<open>MAC\<close> is not used.
\<close>

definition sub_cells_inter ::
  "nat \<Rightarrow> nat \<Rightarrow> real tree \<Rightarrow> real branch \<Rightarrow> real \<Rightarrow> error + real branch list" where
  "sub_cells_inter n D t b mac =
     (case root t of None \<Rightarrow> Inl NullPointer
      | Some r \<Rightarrow>
          walk br_leaf
            (\<lambda>branch. br_sub_entities branch > 0 \<and>
               intersects_box_box (br_bmin b) (br_bmax b) (br_bmin branch) (br_bmax branch))
            (\<lambda>k c inter_list. Inr (inter_list @ [c]))
            D n (tree_branch_map t) [r] [])"

text \<open>
  \<open>apply_sub_entity\<close>: the call of \<open>ef\<close> is recorded as the pair of the entity and the list
  of neighbours that \<open>ef\<close> is handed.
\<close>

definition apply_sub_entity ::
  "real entity \<Rightarrow> real branch list \<Rightarrow> real \<Rightarrow> real entity \<times> real entity list" where
  "apply_sub_entity ent inter_list radius =
     (ent, concat (map (\<lambda>b. filter (\<lambda>nb. within' (ent_coordinates ent) (ent_coordinates nb) radius)
                              (br_ents b)) inter_list))"

text \<open>
  \<open>force_calc\<close>, from the branch stored under \<open>b\<close>: the calls of \<open>ef\<close> are appended to \<open>calls\<close>.
  \<open>getMass\<close> and \<open>mass\<close> of a branch read the same attribute.
\<close>

definition force_calc ::
  "nat \<Rightarrow> nat \<Rightarrow> real tree \<Rightarrow> nat \<Rightarrow> real branch list \<Rightarrow> real
     \<Rightarrow> (real entity \<times> real entity list) list \<Rightarrow> error + (real entity \<times> real entity list) list" where
  "force_calc n D t b inter_list radius calls =
     walk br_leaf (\<lambda>next. br_mass next > 0)
       (\<lambda>k c calls. Inr (calls @ map (\<lambda>child'. apply_sub_entity child' inter_list radius)
                                   (filter is_local (br_ents c))))
       D n (tree_branch_map t) [b] calls"

text \<open>
  \<open>apply_sub_cells\<close>, from the branch stored under \<open>b\<close>.  The tasks that the OpenMP pragmas
  create are run one after the other, in the order in which the loop creates them.
\<close>

definition apply_sub_cells ::
  "nat \<Rightarrow> nat \<Rightarrow> real tree \<Rightarrow> nat \<Rightarrow> real \<Rightarrow> real \<Rightarrow> int
     \<Rightarrow> error + (real entity \<times> real entity list) list" where
  "apply_sub_cells n D t b radius mac ncritical =
     walk (\<lambda>c. (br_leaf c \<and> br_sub_entities c > 0) \<or>
                (int (br_sub_entities c) < ncritical \<and> br_sub_entities c > 0))
       (\<lambda>next. br_sub_entities next > 0)
       (\<lambda>k c calls.
          (case sub_cells_inter n D t c mac of
             Inl e \<Rightarrow> Inl e
           | Inr inter_list \<Rightarrow> force_calc n D t k inter_list radius calls))
       D n (tree_branch_map t) [b] []"

section \<open>Notions used in the proofs\<close>

text \<open>
  Two branch maps have the same structure under a projection \<open>p\<close> of the branches when
  they hold the same keys and the branches under each key agree on \<open>p\<close>.
\<close>

definition struct_eq :: "('a branch \<Rightarrow> 's) \<Rightarrow> 'a branch_map \<Rightarrow> 'a branch_map \<Rightarrow> bool" where
  "struct_eq p m1 m2 = (\<forall>k. map_option p (m1 k) = map_option p (m2 k))"

text \<open>
  Two runs that start in \<open>m1\<close> and \<open>m2\<close> and end in \<open>m1'\<close> and \<open>m2'\<close> agree on every slot that
  either of them wrote.
\<close>

definition same_or_untouched ::
  "'a branch_map \<Rightarrow> 'a branch_map \<Rightarrow> 'a branch_map \<Rightarrow> 'a branch_map \<Rightarrow> bool" where
  "same_or_untouched m1 m2 m1' m2' = (\<forall>k. m1' k = m2' k \<or> (m1' k = m1 k \<and> m2' k = m2 k))"

text \<open>
  The branch under \<open>k\<close> and its descendants down to \<open>n\<close> levels form a complete subtree:
  every branch is stored under its own id, an inner branch has all its \<open>2\<^sup>D\<close> children, and
  the branches of the last level are leaves.
\<close>

fun complete :: "nat \<Rightarrow> nat \<Rightarrow> 'a branch_map \<Rightarrow> nat \<Rightarrow> bool" where
  "complete D 0 m k = (case m k of None \<Rightarrow> False | Some b \<Rightarrow> br_id b = k \<and> br_leaf b)"
| "complete D (Suc n) m k =
     (case m k of None \<Rightarrow> False
      | Some b \<Rightarrow> br_id b = k \<and> (br_leaf b \<or> list_all (\<lambda>i. complete D n m (push D k i)) [0..<2 ^ D]))"

text \<open>The invariant of claim C9 with the branches of \<open>X\<close> exempted.\<close>

definition children_present_except :: "nat set \<Rightarrow> nat \<Rightarrow> 'a branch_map \<Rightarrow> bool" where
  "children_present_except X D m =
     (\<forall>k b. m k = Some b \<longrightarrow>
        br_id b = k \<and> (\<not> br_leaf b \<and> k \<notin> X \<longrightarrow> (\<forall>i<2 ^ D. m (push D k i) \<noteq> None)))"

text \<open>
  The loop \<open>walk\<close> as a descent.  \<open>kept_children\<close> are the children of \<open>k\<close> that the loop
  pushes, in the order in which it pops them; \<open>cells\<close> are the branches on which the body
  is run, in the order of the runs, below \<open>k\<close> and down to \<open>n\<close> levels; \<open>steps\<close> is the number of
  iterations this takes.  \<open>walkable\<close> holds when the descent from \<open>k\<close> meets no \<open>nullptr\<close> and
  ends within \<open>n\<close> levels: every branch it reaches is stored under its id and either stops
  the descent or has all its children.
\<close>

definition kept_children :: "('a branch \<Rightarrow> bool) \<Rightarrow> nat \<Rightarrow> 'a branch_map \<Rightarrow> nat \<Rightarrow> nat list" where
  "kept_children keep D m k =
     filter (\<lambda>c. case m c of None \<Rightarrow> False | Some cb \<Rightarrow> keep cb) (map (push D k) (rev [0..<2 ^ D]))"

fun cells ::
  "('a branch \<Rightarrow> bool) \<Rightarrow> ('a branch \<Rightarrow> bool) \<Rightarrow> nat \<Rightarrow> nat \<Rightarrow> 'a branch_map \<Rightarrow> nat
     \<Rightarrow> (nat \<times> 'a branch) list" where
  "cells stop keep D 0 m k = (case m k of None \<Rightarrow> [] | Some b \<Rightarrow> if stop b then [(k, b)] else [])"
| "cells stop keep D (Suc n) m k =
     (case m k of None \<Rightarrow> []
      | Some b \<Rightarrow> if stop b then [(k, b)]
                  else concat (map (cells stop keep D n m) (kept_children keep D m k)))"

fun steps ::
  "('a branch \<Rightarrow> bool) \<Rightarrow> ('a branch \<Rightarrow> bool) \<Rightarrow> nat \<Rightarrow> nat \<Rightarrow> 'a branch_map \<Rightarrow> nat \<Rightarrow> nat" where
  "steps stop keep D 0 m k = 1"
| "steps stop keep D (Suc n) m k =
     (case m k of None \<Rightarrow> 1
      | Some b \<Rightarrow> if stop b then 1
                  else 1 + sum_list (map (steps stop keep D n m) (kept_children keep D m k)))"

fun walkable ::
  "('a branch \<Rightarrow> bool) \<Rightarrow> ('a branch \<Rightarrow> bool) \<Rightarrow> nat \<Rightarrow> nat \<Rightarrow> 'a branch_map \<Rightarrow> nat \<Rightarrow> bool" where
  "walkable stop keep D 0 m k = (case m k of None \<Rightarrow> False | Some b \<Rightarrow> br_id b = k \<and> stop b)"
| "walkable stop keep D (Suc n) m k =
     (case m k of None \<Rightarrow> False
      | Some b \<Rightarrow> br_id b = k \<and>
          (stop b \<or> (list_all (\<lambda>i. m (push D k i) \<noteq> None) [0..<2 ^ D] \<and>
                      list_all (walkable stop keep D n m) (kept_children keep D m k))))"

text \<open>A bound on the number of branches of a tree of \<open>n\<close> levels below its root.\<close>

fun nodes_bound :: "nat \<Rightarrow> nat \<Rightarrow> nat" where
  "nodes_bound D 0 = 1"
| "nodes_bound D (Suc n) = 1 + 2 ^ D * nodes_bound D n"

text \<open>
  \<open>local_sources\<close> are the local entities of the leaves below \<open>k\<close>, leaf after leaf in the
  order of a descent that prunes nothing.  \<open>covered\<close> holds of a subtree of at most \<open>n\<close>
  levels when every branch is stored under its id, every inner branch has all its
  children, and every branch with a local entity below it has a positive number of
  sub-entities and a positive mass.
\<close>

definition cell_sources :: "nat \<times> 'a branch \<Rightarrow> 'a entity list" where
  "cell_sources c = filter is_local (br_ents (snd c))"

definition local_sources :: "nat \<Rightarrow> nat \<Rightarrow> 'a branch_map \<Rightarrow> nat \<Rightarrow> 'a entity list" where
  "local_sources D n m k = concat (map cell_sources (cells br_leaf (\<lambda>b. True) D n m k))"

fun covered :: "nat \<Rightarrow> nat \<Rightarrow> real branch_map \<Rightarrow> nat \<Rightarrow> bool" where
  "covered D 0 m k =
     (case m k of None \<Rightarrow> False
      | Some b \<Rightarrow> br_id b = k \<and> br_leaf b \<and>
          (local_sources D 0 m k \<noteq> [] \<longrightarrow> 0 < br_sub_entities b \<and> 0 < br_mass b))"
| "covered D (Suc n) m k =
     (case m k of None \<Rightarrow> False
      | Some b \<Rightarrow> br_id b = k \<and>
          (local_sources D (Suc n) m k \<noteq> [] \<longrightarrow> 0 < br_sub_entities b \<and> 0 < br_mass b) \<and>
          (br_leaf b \<or> list_all (covered D n m) (map (push D k) [0..<2 ^ D])))"

text \<open>The test of \<open>apply_sub_cells\<close> for a branch on which the work is done.\<close>

definition work_cell :: "int \<Rightarrow> 'a branch \<Rightarrow> bool" where
  "work_cell ncritical c =
     ((br_leaf c \<and> br_sub_entities c > 0) \<or>
      (int (br_sub_entities c) < ncritical \<and> br_sub_entities c > 0))"

text \<open>The leaves below \<open>k\<close>, in the order of a descent that prunes nothing.\<close>

definition all_leaves :: "nat \<Rightarrow> nat \<Rightarrow> 'a branch_map \<Rightarrow> nat \<Rightarrow> 'a branch list" where
  "all_leaves D n m k = map snd (cells br_leaf (\<lambda>b. True) D n m k)"



text \<open>
  Notions for the search in a radius.  \<open>in_box\<close>: the stored box of a branch holds the
  position of an entity.  \<open>ents_below\<close>: the entities of the leaves below \<open>k\<close>, leaf after leaf.
  \<open>boxes_hold\<close>: in the subtree of at most \<open>n\<close> levels below \<open>k\<close> the box of every branch holds
  every entity below the branch.  \<open>sphere_leaves\<close>: the leaves that the descent of
  \<open>find_in_radius_b\<close> reaches from the root.
\<close>

definition in_box :: "real branch \<Rightarrow> real entity \<Rightarrow> bool" where
  "in_box b q =
     (length (br_bmin b) = length (ent_coordinates q) \<and>
      length (br_bmax b) = length (ent_coordinates q) \<and>
      list_all (\<lambda>d. br_bmin b ! d \<le> ent_coordinates q ! d \<and> ent_coordinates q ! d \<le> br_bmax b ! d)
        [0..<length (ent_coordinates q)])"

definition ents_below :: "nat \<Rightarrow> nat \<Rightarrow> 'a branch_map \<Rightarrow> nat \<Rightarrow> 'a entity list" where
  "ents_below D n m k = concat (map br_ents (all_leaves D n m k))"

fun boxes_hold :: "nat \<Rightarrow> nat \<Rightarrow> real branch_map \<Rightarrow> nat \<Rightarrow> bool" where
  "boxes_hold D 0 m k =
     (case m k of None \<Rightarrow> False | Some b \<Rightarrow> list_all (in_box b) (ents_below D 0 m k))"
| "boxes_hold D (Suc n) m k =
     (case m k of None \<Rightarrow> False
      | Some b \<Rightarrow> list_all (in_box b) (ents_below D (Suc n) m k) \<and>
          (br_leaf b \<or> list_all (boxes_hold D n m) (map (push D k) [0..<2 ^ D])))"

definition sphere_leaves :: "nat \<Rightarrow> nat \<Rightarrow> real branch_map \<Rightarrow> real point \<Rightarrow> real \<Rightarrow> real branch list" where
  "sphere_leaves D n m center radius =
     map snd (cells br_leaf
       (\<lambda>branch. intersects_sphere_box (br_bmin branch) (br_bmax branch) center radius)
       D n m root_id)"

section \<open>The distributed sort\<close>

text \<open>
  \<open>mpi_sort_unbalanced\<close> over all ranks at once: the state is the list of the vectors
  \<open>rbodies\<close>, one for each rank, of pairs of a key and a body.  The function never looks
  into a body, so its type is a parameter.

  Both calls of \<open>std::sort\<close> compare \<open>left.first < right.first\<close> only.  The order in which
  \<open>std::sort\<close> leaves elements that this comparison does not tell apart is not fixed by
  the language; here they keep the order they came in (insertion sort, which is what
  the library runs on short ranges).
\<close>

definition sort_by_key :: "(nat \<times> 'b) list \<Rightarrow> (nat \<times> 'b) list" where
  "sort_by_key = sort_key fst"

text \<open>
  The sample of the keys of one rank: \<open>nsample\<close> is the capacity \<open>noct / sizeof(entity_key_t)\<close>
  or the number of bodies when that is smaller; \<open>rbodies.size() / nsample\<close> divides by zero
  on a rank without bodies.
\<close>

definition keys_sample :: "nat \<Rightarrow> (nat \<times> 'b) list \<Rightarrow> error + nat list" where
  "keys_sample cap rb =
     (let nsample = (if length rb < cap then length rb else cap) in
      if nsample = 0 then Inl DivisionByZero
      else let chuncksize = length rb div nsample
           in Inr (map (\<lambda>i. fst (rb ! (chuncksize * i))) [0..<nsample]))"

text \<open>
  The master: the gathered samples fill \<open>master_keys\<close>, which was resized to
  \<open>master_nkeys\<close> default keys (\<open>default_key\<close>, the value of \<open>entity_key_t()\<close>); more samples
  than \<open>master_nkeys\<close> overrun the vector.  The splitters are read from the sorted keys.
\<close>

definition master_splitters :: "nat \<Rightarrow> nat \<Rightarrow> nat \<Rightarrow> nat \<Rightarrow> nat list list \<Rightarrow> error + nat list" where
  "master_splitters cap default_key totalnbodies size' samples =
     (let master_nkeys = (if totalnbodies < cap * size' then totalnbodies else cap * size');
          gathered = concat samples
      in if master_nkeys < length gathered then Inl OutOfBounds
         else let master_keys = sort (gathered @ replicate (master_nkeys - length gathered) default_key);
                  chuncksize = master_nkeys div size'
              in efold (\<lambda>i splitters.
                    if (i + 1) * chuncksize < length master_keys
                    then Inr (splitters @ [master_keys ! ((i + 1) * chuncksize)])
                    else Inl OutOfBounds)
                  [0..<size' - 1] [])"

text \<open>
  The test that adds a body to \<open>sendcount[i]\<close>.  For \<open>i = size - 1\<close> and a key below the last
  splitter the third condition reads \<open>splitters[size - 1]\<close>, one past the end; whatever is
  read there, the condition is false, because its second half is.
\<close>

definition in_bucket :: "nat \<Rightarrow> nat list \<Rightarrow> nat \<Rightarrow> nat \<Rightarrow> bool" where
  "in_bucket size' splitters i key =
     (if i = 0 \<and> key < splitters ! i then True
      else if i = size' - 1 \<and> key \<ge> splitters ! (size' - 2) then True
      else if i = 0 then False
      else if i = size' - 1 then False
      else key < splitters ! i \<and> key \<ge> splitters ! (i - 1))"

definition sendcount :: "nat \<Rightarrow> nat list \<Rightarrow> (nat \<times> 'b) list \<Rightarrow> nat list" where
  "sendcount size' splitters rb =
     map (\<lambda>i. length (filter (\<lambda>bi. in_bucket size' splitters i (fst bi)) rb)) [0..<size']"

definition sendoffsets :: "nat list \<Rightarrow> nat list" where
  "sendoffsets counts = map (\<lambda>i. sum_list (take i counts)) [0..<Suc (length counts)]"

text \<open>
  \<open>MPI_Alltoallv\<close>: rank \<open>j\<close> receives from every rank \<open>r\<close>, in the order of the ranks, the
  \<open>sendcount\<close> bodies of \<open>r\<close> that start at the offset of \<open>r\<close> for \<open>j\<close>.
\<close>

definition alltoallv :: "nat \<Rightarrow> nat list \<Rightarrow> (nat \<times> 'b) list list \<Rightarrow> (nat \<times> 'b) list list" where
  "alltoallv size' splitters rbs =
     map (\<lambda>j. concat (map (\<lambda>rb.
            let cnt = sendcount size' splitters rb;
                off = sendoffsets cnt
            in take (cnt ! j) (drop (off ! j) rb)) rbs))
       [0..<size']"

definition mpi_sort_unbalanced ::
  "nat \<Rightarrow> nat \<Rightarrow> nat \<Rightarrow> (nat \<times> 'b) list list \<Rightarrow> error + (nat \<times> 'b) list list" where
  "mpi_sort_unbalanced cap default_key totalnbodies rbs =
     (let size' = length rbs;
          rbs1 = map sort_by_key rbs
      in if size' = 1 then Inr rbs1
         else (case efold (\<lambda>rb samples.
                       (case keys_sample cap rb of Inl e \<Rightarrow> Inl e
                        | Inr s \<Rightarrow> Inr (samples @ [s]))) rbs1 [] of
                 Inl e \<Rightarrow> Inl e
               | Inr samples \<Rightarrow>
                  (case master_splitters cap default_key totalnbodies size' samples of
                     Inl e \<Rightarrow> Inl e
                   | Inr splitters \<Rightarrow> Inr (map sort_by_key (alltoallv size' splitters rbs1)))))"

text \<open>
  The order the spec asks for: by key, and by the id of the body among equal keys; and
  no pair of a key and an id twice.
\<close>

definition sorted_by_key_id :: "('b \<Rightarrow> nat) \<Rightarrow> (nat \<times> 'b) list \<Rightarrow> bool" where
  "sorted_by_key_id getId xs =
     sorted_wrt (\<lambda>a b. fst a < fst b \<or> (fst a = fst b \<and> getId (snd a) \<le> getId (snd b))) xs"

definition no_duplicate_key_id :: "('b \<Rightarrow> nat) \<Rightarrow> (nat \<times> 'b) list \<Rightarrow> bool" where
  "no_duplicate_key_id getId xs = distinct (map (\<lambda>a. (fst a, getId (snd a))) xs)"

section \<open>Concrete inputs\<close>

text \<open>Inputs on which the theorems below are instantiated.\<close>

definition c5_acc0 :: fmm_acc where
  "c5_acc0 = \<lparr>fc = [0, 0, 0], jacobi = replicate 9 0, hessian = replicate 27 0, fmm_count = 0\<rparr>"

definition c5_source :: "real branch" where
  "c5_source = \<lparr>br_id = 1, br_leaf = True,
     br_ents = [\<lparr>ent_id = 0, ent_coordinates = [0, 0, 0], ent_mass = 1, ent_h = 1,
                 ent_locality = LOCAL, ent_owner = 0, ent_branch_id = 1\<rparr>],
     br_action = action_none, br_mass = 1, br_coordinates = [0, 0, 0],
     br_bmin = [0, 0, 0], br_bmax = [2, 1, 2], br_sub_entities = 1\<rparr>"

definition c5_sink :: "real branch" where
  "c5_sink = \<lparr>br_id = 0, br_leaf = True, br_ents = [], br_action = action_none, br_mass = 0,
     br_coordinates = [2, 1, 2], br_bmin = [0, 0, 0], br_bmax = [5, 5, 5], br_sub_entities = 0\<rparr>"

definition c5_far_sink :: "real branch" where
  "c5_far_sink = \<lparr>br_id = 0, br_leaf = True, br_ents = [], br_action = action_none, br_mass = 0,
     br_coordinates = [0, 4, 3], br_bmin = [0, 3, 2], br_bmax = [1, 5, 4], br_sub_entities = 0\<rparr>"

definition c6_leaf :: "real branch" where
  "c6_leaf = \<lparr>br_id = 1, br_leaf = True,
     br_ents = [\<lparr>ent_id = 7, ent_coordinates = [1, 0, 0], ent_mass = 1, ent_h = 1,
                 ent_locality = LOCAL, ent_owner = 0, ent_branch_id = 1\<rparr>],
     br_action = action_none, br_mass = 1, br_coordinates = [1, 0, 0],
     br_bmin = [1, 0, 0], br_bmax = [1, 0, 0], br_sub_entities = 1\<rparr>"

definition c6_hessian :: "real list" where
  "c6_hessian = (replicate 27 0)[0 := 2]"

definition c6_state0 :: c2p_state where
  "c6_state0 = \<lparr>gravForce = Map.empty, neighbors = [], nbody = 0, c2p_count = 0\<rparr>"

definition c6_tree :: "real tree" where
  "c6_tree = \<lparr>tree_branch_map = [1 \<mapsto> c6_leaf], tree_max_depth = 0,
     tree_range = ([0, 0, 0], [1, 1, 1]), tree_scale = [1, 1, 1]\<rparr>"

definition c5_tree :: "real tree" where
  "c5_tree = \<lparr>tree_branch_map = [1 \<mapsto> c5_source], tree_max_depth = 0,
     tree_range = ([0, 0, 0], [5, 5, 5]), tree_scale = [5, 5, 5]\<rparr>"

text \<open>\<open>DBL_MAX\<close> of IEEE doubles, \<open>(2\<^sup>5\<^sup>3 - 1)\<cdot>2\<^sup>9\<^sup>7\<^sup>1\<close>.\<close>

definition DBL_MAX :: real where
  "DBL_MAX = (2 ^ 53 - 1) * 2 ^ 971"

text \<open>
  A tree over one dimension: the root with its two children, the leaves \<open>2\<close> and \<open>3\<close>, each
  with one local particle; no aggregate has been computed yet.
\<close>

definition ex_branch :: "nat \<Rightarrow> bool \<Rightarrow> real entity list \<Rightarrow> real branch" where
  "ex_branch k lf es = \<lparr>br_id = k, br_leaf = lf, br_ents = es, br_action = action_none,
     br_mass = 0, br_coordinates = [0], br_bmin = [0], br_bmax = [0], br_sub_entities = 0\<rparr>"

definition ex_entity :: "nat \<Rightarrow> real \<Rightarrow> real \<Rightarrow> locality \<Rightarrow> nat \<Rightarrow> real entity" where
  "ex_entity i x ms loc k = \<lparr>ent_id = i, ent_coordinates = [x], ent_mass = ms, ent_h = 1,
     ent_locality = loc, ent_owner = 0, ent_branch_id = k\<rparr>"

definition ex_tree :: "real tree" where
  "ex_tree = \<lparr>tree_branch_map =
       [1 \<mapsto> ex_branch 1 False [],
        2 \<mapsto> ex_branch 2 True [ex_entity 0 (1 / 4) 1 LOCAL 2],
        3 \<mapsto> ex_branch 3 True [ex_entity 1 (3 / 4) 2 LOCAL 3]],
     tree_max_depth = 1,
     tree_range = ([0], [1]), tree_scale = [1]\<rparr>"

text \<open>
  A tree over three dimensions: the root with its eight children, the leaves \<open>8\<close> to \<open>15\<close>;
  the leaf \<open>8\<close> holds two local particles, the leaf \<open>15\<close> one.
\<close>

definition ex_entity3 :: "nat \<Rightarrow> real point \<Rightarrow> real \<Rightarrow> locality \<Rightarrow> nat \<Rightarrow> real entity" where
  "ex_entity3 i x ms loc k = \<lparr>ent_id = i, ent_coordinates = x, ent_mass = ms, ent_h = 1,
     ent_locality = loc, ent_owner = 0, ent_branch_id = k\<rparr>"

definition ex_branch3 :: "nat \<Rightarrow> bool \<Rightarrow> real entity list \<Rightarrow> real branch" where
  "ex_branch3 k lf es = \<lparr>br_id = k, br_leaf = lf, br_ents = es, br_action = action_none,
     br_mass = 0, br_coordinates = [0, 0, 0], br_bmin = [0, 0, 0], br_bmax = [0, 0, 0],
     br_sub_entities = 0\<rparr>"

definition ex_tree3 :: "real tree" where
  "ex_tree3 = \<lparr>tree_branch_map = (\<lambda>k.
       if k = 1 then Some (ex_branch3 1 False [])
       else if k = 8 then Some (ex_branch3 8 True
              [ex_entity3 0 [1 / 4, 1 / 4, 1 / 4] 1 LOCAL 8, ex_entity3 1 [1 / 8, 1 / 4, 3 / 8] 3 LOCAL 8])
       else if k = 15 then Some (ex_branch3 15 True [ex_entity3 2 [3 / 4, 3 / 4, 3 / 4] 2 LOCAL 15])
       else if 8 < k \<and> k < 15 then Some (ex_branch3 k True [])
       else None),
     tree_max_depth = 1,
     tree_range = ([0, 0, 0], [1, 1, 1]), tree_scale = [1, 1, 1]\<rparr>"

text \<open>
  Trees built by the operations, over one dimension with at most one entity in a leaf:
  two insertions that refine the root; a third insertion that refines the leaf \<open>3\<close> twice;
  and the coarsening of the branch \<open>3\<close> of that tree.
\<close>

definition c9_t1 :: "real tree" where
  "c9_t1 = projr (tree_insert 5 1 1 (tree_topology [0] [1]) (ex_entity 0 (1 / 4) 1 LOCAL 0))"

definition c9_t2 :: "real tree" where
  "c9_t2 = projr (tree_insert 5 1 1 c9_t1 (ex_entity 1 (3 / 4) 2 LOCAL 0))"

definition c9_t3 :: "real tree" where
  "c9_t3 = projr (tree_insert 5 1 1 c9_t2 (ex_entity 2 (7 / 8) 2 LOCAL 0))"

definition c9_t4 :: "real tree" where
  "c9_t4 = projr (coarsen' 5 1 1 c9_t3 3)"

text \<open>
  A tree over one dimension with its aggregates up to date: the leaf \<open>2\<close> holds a particle at
  \<open>2/5\<close>, the leaf \<open>3\<close> a particle at \<open>13/25\<close>.
\<close>

definition c3_e0 :: "real entity" where
  "c3_e0 = ex_entity 0 (2 / 5) 1 LOCAL 2"

definition c3_e1 :: "real entity" where
  "c3_e1 = ex_entity 1 (13 / 25) 1 LOCAL 3"

definition c3_tree0 :: "real tree" where
  "c3_tree0 = \<lparr>tree_branch_map =
       [1 \<mapsto> ex_branch 1 False [], 2 \<mapsto> ex_branch 2 True [c3_e0], 3 \<mapsto> ex_branch 3 True [c3_e1]],
     tree_max_depth = 1,
     tree_range = ([0], [1]), tree_scale = [1]\<rparr>"

definition c3_tree :: "real tree" where
  "c3_tree = projr (update_branches 1 DBL_MAX 2 0 c3_tree0)"

text \<open>
  Bodies for the distributed sort, with their keys: on one rank two bodies at the same
  position, the one with the greater id first; on two ranks four bodies, of which the two
  with key \<open>3\<close> start on different ranks.
\<close>

definition c4_body :: "nat \<Rightarrow> real \<Rightarrow> real entity" where
  "c4_body i x = ex_entity i x 1 LOCAL 0"

definition c4_one_rank :: "(nat \<times> real entity) list list" where
  "c4_one_rank = [[(5, c4_body 2 (1 / 2)), (5, c4_body 1 (1 / 2))]]"

definition c4_two_ranks :: "(nat \<times> real entity) list list" where
  "c4_two_ranks = [[(3, c4_body 9 (3 / 4)), (1, c4_body 7 (1 / 4))],
                   [(2, c4_body 5 (1 / 2)), (3, c4_body 4 (3 / 4))]]"





text \<open>
  The same tree after a third particle, at \<open>1/10\<close>, has been inserted and before the
  aggregates are computed again.
\<close>

definition c3_e2 :: "real entity" where
  "c3_e2 = ex_entity 2 (1 / 10) 1 LOCAL 0"

definition c3_stale :: "real tree" where
  "c3_stale = projr (tree_insert 5 1 2 c3_tree c3_e2)"

section \<open>Properties of the multipole evaluation\<close>

lemma upt3: "[0..<3] = [0, 1, 2]"
  by (simp add: upt_rec)

lemma len3: "length xs = 3 \<Longrightarrow> \<exists>a b c. xs = [a, b, c]"
  by (auto simp: eval_nat_numeral length_Suc_conv)

lemma len9: "length xs = 9 \<Longrightarrow> \<exists>a b c d e f g h i. xs = [a, b, c, d, e, f, g, h, i]"
  by (auto simp: eval_nat_numeral length_Suc_conv)

lemma lt3: "i < (3::nat) \<Longrightarrow> i = 0 \<or> i = 1 \<or> i = 2"
  by arith

lemma all_lt3: "(\<forall>i<(3::nat). P i) \<longleftrightarrow> P 0 \<and> P 1 \<and> P 2"
  by (auto dest!: lt3)

lemma computeAcceleration_formula:
  assumes "length sp = 3" "length bp = 3" "length (fc acc) = 3" "length (jacobi acc) = 9"
    and "distance sp bp > 0"
  shows "\<exists>acc'. computeAcceleration sp bp mass acc = Inr acc' \<and>
    (\<forall>i<3. fc acc' ! i = fc acc ! i + (- mass / (distance sp bp) ^ 3) * (sp ! i - bp ! i)) \<and>
    (\<forall>i<3. \<forall>j<3. jacobi acc' ! (i * 3 + j) = jacobi acc ! (i * 3 + j) +
        (- mass / (distance sp bp) ^ 3) *
          ((if i = j then 1 else 0) - 3 * (sp ! i - bp ! i) * (sp ! j - bp ! j) / (distance sp bp)\<^sup>2))"
proof -
  obtain s0 s1 s2 where sp: "sp = [s0, s1, s2]" using len3[OF assms(1)] by blast
  obtain b0 b1 b2 where bp: "bp = [b0, b1, b2]" using len3[OF assms(2)] by blast
  obtain f0 f1 f2 where f: "fc acc = [f0, f1, f2]" using len3[OF assms(3)] by blast
  obtain j0 j1 j2 j3 j4 j5 j6 j7 j8 where j: "jacobi acc = [j0, j1, j2, j3, j4, j5, j6, j7, j8]"
    using len9[OF assms(4)] by blast
  define r where "r = distance sp bp"
  have r: "r > 0" using assms(5) by (simp add: r_def)
  show ?thesis
    unfolding computeAcceleration_def r_def[symmetric] Let_def all_lt3
    using r
    by (simp add: sp bp f j upt3 point_sub_def point_add_def point_scale_def
          power3_eq_cube power2_eq_square) (simp add: field_simps)
qed


lemma point_lt_iff: "point_lt p q \<longleftrightarrow> (\<forall>i<3. p ! i \<le> q ! i)"
  by (simp add: point_lt_def gdimension_def upt3 all_lt3 not_less)

lemma point_gt_iff: "point_gt p q \<longleftrightarrow> (\<forall>i<3. q ! i \<le> p ! i)"
  by (simp add: point_gt_def gdimension_def upt3 all_lt3 not_less)

lemma point_eq_iff: "point_eq p q \<longleftrightarrow> (\<forall>i<3. p ! i = q ! i)"
  by (simp add: point_eq_def gdimension_def upt3 all_lt3)

lemma distance_nonneg: "0 \<le> distance p q"
proof -
  have "0 \<le> sum_list (map2 (\<lambda>a b. (a - b)\<^sup>2) p q)"
    by (rule sum_list_nonneg) auto
  then show ?thesis by (simp add: distance_def)
qed

lemma upt8: "[0..<8] = [0, 1, 2, 3, 4, 5, 6, 7]"
  by (simp add: upt_rec)

text \<open>
  Claim C5, as the code has it.  One call of \<open>tree_traversal_c2c\<close> on a source branch \<open>src\<close>
  \<^item> returns the accumulators unchanged when the mass of \<open>src\<close> is zero or when the box of
    \<open>src\<close> lies in the box of the sink, boundary included (the comparison of points used
    by the code is componentwise \<open>\<le>\<close>; equal boxes are a special case);
  \<^item> otherwise, when the acceptance criterion holds, adds the monopole term
    \<open>-m\<cdot>\<Delta>/r\<^sup>3\<close> to the force and \<open>(-m/r\<^sup>3)\<cdot>(\<delta>\<^sub>i\<^sub>j - 3\<cdot>\<Delta>\<^sub>i\<cdot>\<Delta>\<^sub>j/r\<^sup>2)\<close> to the entries of the Jacobian;
  \<^item> otherwise, at a leaf, adds each local particle that is not in the closed box of the
    sink as a point mass, in order;
  \<^item> otherwise runs over all eight children, in order.
\<close>

theorem tree_traversal_c2c_step:
  assumes "tree_branch_map t key = Some src"
  shows
   "(br_mass src = 0 \<or>
     (\<forall>i<3. br_bmin sink ! i \<le> br_bmin src ! i \<and> br_bmax src ! i \<le> br_bmax sink ! i)
       \<longrightarrow> tree_traversal_c2c (Suc n) t sink (Some key) acc macangle = Inr acc)
    \<and>
    (br_mass src \<noteq> 0 \<and>
     \<not> (\<forall>i<3. br_bmin sink ! i \<le> br_bmin src ! i \<and> br_bmax src ! i \<le> br_bmax sink ! i) \<and>
     distance (br_coordinates sink) (br_coordinates src) \<noteq> 0 \<and>
     distance (br_bmin src) (br_bmax src) / distance (br_coordinates sink) (br_coordinates src)
       < macangle \<and>
     length (br_coordinates sink) = 3 \<and> length (br_coordinates src) = 3 \<and>
     length (fc acc) = 3 \<and> length (jacobi acc) = 9
       \<longrightarrow> (\<exists>acc'. tree_traversal_c2c (Suc n) t sink (Some key) acc macangle = Inr acc' \<and>
             (\<forall>i<3. fc acc' ! i = fc acc ! i +
                (- br_mass src / (distance (br_coordinates sink) (br_coordinates src)) ^ 3) *
                (br_coordinates sink ! i - br_coordinates src ! i)) \<and>
             (\<forall>i<3. \<forall>j<3. jacobi acc' ! (i * 3 + j) = jacobi acc ! (i * 3 + j) +
                (- br_mass src / (distance (br_coordinates sink) (br_coordinates src)) ^ 3) *
                ((if i = j then 1 else 0) -
                 3 * (br_coordinates sink ! i - br_coordinates src ! i) *
                     (br_coordinates sink ! j - br_coordinates src ! j) /
                 (distance (br_coordinates sink) (br_coordinates src))\<^sup>2))))
    \<and>
    (br_mass src \<noteq> 0 \<and>
     \<not> (\<forall>i<3. br_bmin sink ! i \<le> br_bmin src ! i \<and> br_bmax src ! i \<le> br_bmax sink ! i) \<and>
     \<not> MAC sink src macangle \<and> br_leaf src
       \<longrightarrow> tree_traversal_c2c (Suc n) t sink (Some key) acc macangle =
             efold (\<lambda>bi a.
                 if is_local bi \<and>
                    \<not> (\<forall>i<3. br_bmin sink ! i \<le> ent_coordinates bi ! i \<and>
                                ent_coordinates bi ! i \<le> br_bmax sink ! i)
                 then (case computeAcceleration (br_coordinates sink) (ent_coordinates bi)
                              (ent_mass bi) a of
                         Inl e \<Rightarrow> Inl e
                       | Inr a' \<Rightarrow> Inr (a'\<lparr>fmm_count := fmm_count a' + 1\<rparr>))
                 else Inr a) (br_ents src) acc)
    \<and>
    (br_mass src \<noteq> 0 \<and>
     \<not> (\<forall>i<3. br_bmin sink ! i \<le> br_bmin src ! i \<and> br_bmax src ! i \<le> br_bmax sink ! i) \<and>
     \<not> MAC sink src macangle \<and> \<not> br_leaf src
       \<longrightarrow> tree_traversal_c2c (Suc n) t sink (Some key) acc macangle =
             efold (\<lambda>i a. tree_traversal_c2c n t sink (child 3 (tree_branch_map t) src i) a macangle)
               [0, 1, 2, 3, 4, 5, 6, 7] acc)"
proof -
  let ?inside = "\<forall>i<3. br_bmin sink ! i \<le> br_bmin src ! i \<and> br_bmax src ! i \<le> br_bmax sink ! i"
  have inside: "(point_lt (br_bmin sink) (br_bmin src) \<and> point_gt (br_bmax sink) (br_bmax src)) = ?inside"
    by (auto simp: point_lt_iff point_gt_iff)
  have same: "point_eq (br_bmin sink) (br_bmin src) \<and> point_eq (br_bmax sink) (br_bmax src) \<Longrightarrow> ?inside"
    by (auto simp: point_eq_iff)
  have entin: "\<And>bi. (point_lt (ent_coordinates bi) (br_bmax sink) \<and> point_gt (ent_coordinates bi) (br_bmin sink))
      = (\<forall>i<3. br_bmin sink ! i \<le> ent_coordinates bi ! i \<and> ent_coordinates bi ! i \<le> br_bmax sink ! i)"
    by (auto simp: point_lt_iff point_gt_iff)
  have unfold: "tree_traversal_c2c (Suc n) t sink (Some key) acc macangle =
       (if br_mass src = 0 \<or> ?inside then Inr acc
        else if MAC sink src macangle
          then computeAcceleration (br_coordinates sink) (br_coordinates src) (br_mass src) acc
        else if br_leaf src
          then efold (\<lambda>bi acc.
                 if is_local bi then
                   if point_lt (ent_coordinates bi) (br_bmax sink) \<and>
                      point_gt (ent_coordinates bi) (br_bmin sink)
                   then Inr acc
                   else (case computeAcceleration (br_coordinates sink) (ent_coordinates bi)
                                (ent_mass bi) acc of
                           Inl e \<Rightarrow> Inl e
                         | Inr acc' \<Rightarrow> Inr (acc'\<lparr>fmm_count := fmm_count acc' + 1\<rparr>))
                 else Inr acc) (br_ents src) acc
        else efold (\<lambda>i acc. tree_traversal_c2c n t sink (child 3 (tree_branch_map t) src i) acc macangle)
               [0, 1, 2, 3, 4, 5, 6, 7] acc)"
    using same by (simp add: assms inside gdimension_def upt8 del: efold.simps) blast
  have skip: "br_mass src = 0 \<or> ?inside \<Longrightarrow>
      tree_traversal_c2c (Suc n) t sink (Some key) acc macangle = Inr acc"
    by (simp only: unfold if_True)
  have mac: "\<exists>acc'. tree_traversal_c2c (Suc n) t sink (Some key) acc macangle = Inr acc' \<and>
             (\<forall>i<3. fc acc' ! i = fc acc ! i +
                (- br_mass src / (distance (br_coordinates sink) (br_coordinates src)) ^ 3) *
                (br_coordinates sink ! i - br_coordinates src ! i)) \<and>
             (\<forall>i<3. \<forall>j<3. jacobi acc' ! (i * 3 + j) = jacobi acc ! (i * 3 + j) +
                (- br_mass src / (distance (br_coordinates sink) (br_coordinates src)) ^ 3) *
                ((if i = j then 1 else 0) -
                 3 * (br_coordinates sink ! i - br_coordinates src ! i) *
                     (br_coordinates sink ! j - br_coordinates src ! j) /
                 (distance (br_coordinates sink) (br_coordinates src))\<^sup>2))"
    if h: "br_mass src \<noteq> 0" "\<not> ?inside"
      "distance (br_coordinates sink) (br_coordinates src) \<noteq> 0"
      "distance (br_bmin src) (br_bmax src) / distance (br_coordinates sink) (br_coordinates src)
         < macangle"
      "length (br_coordinates sink) = 3" "length (br_coordinates src) = 3"
      "length (fc acc) = 3" "length (jacobi acc) = 9"
  proof -
    have pos: "distance (br_coordinates sink) (br_coordinates src) > 0"
      using h(3) distance_nonneg[of "br_coordinates sink" "br_coordinates src"] by linarith
    have M: "MAC sink src macangle" using h(3,4) by (simp add: MAC_def Let_def)
    have eq: "tree_traversal_c2c (Suc n) t sink (Some key) acc macangle =
        computeAcceleration (br_coordinates sink) (br_coordinates src) (br_mass src) acc"
      using h(1,2) M by (simp only: unfold simp_thms if_True if_False)
    show ?thesis
      unfolding eq
      by (rule computeAcceleration_formula[OF h(5) h(6) h(7) h(8) pos])
  qed
  have leaf: "tree_traversal_c2c (Suc n) t sink (Some key) acc macangle =
             efold (\<lambda>bi a.
                 if is_local bi \<and>
                    \<not> (\<forall>i<3. br_bmin sink ! i \<le> ent_coordinates bi ! i \<and>
                                ent_coordinates bi ! i \<le> br_bmax sink ! i)
                 then (case computeAcceleration (br_coordinates sink) (ent_coordinates bi)
                              (ent_mass bi) a of
                         Inl e \<Rightarrow> Inl e
                       | Inr a' \<Rightarrow> Inr (a'\<lparr>fmm_count := fmm_count a' + 1\<rparr>))
                 else Inr a) (br_ents src) acc"
    if h: "br_mass src \<noteq> 0" "\<not> ?inside" "\<not> MAC sink src macangle" "br_leaf src"
  proof -
    have "tree_traversal_c2c (Suc n) t sink (Some key) acc macangle =
        efold (\<lambda>bi acc.
                 if is_local bi then
                   if point_lt (ent_coordinates bi) (br_bmax sink) \<and>
                      point_gt (ent_coordinates bi) (br_bmin sink)
                   then Inr acc
                   else (case computeAcceleration (br_coordinates sink) (ent_coordinates bi)
                                (ent_mass bi) acc of
                           Inl e \<Rightarrow> Inl e
                         | Inr acc' \<Rightarrow> Inr (acc'\<lparr>fmm_count := fmm_count acc' + 1\<rparr>))
                 else Inr acc) (br_ents src) acc"
      using h by (simp only: unfold simp_thms if_True if_False)
    also have "\<dots> = efold (\<lambda>bi a.
                 if is_local bi \<and>
                    \<not> (\<forall>i<3. br_bmin sink ! i \<le> ent_coordinates bi ! i \<and>
                                ent_coordinates bi ! i \<le> br_bmax sink ! i)
                 then (case computeAcceleration (br_coordinates sink) (ent_coordinates bi)
                              (ent_mass bi) a of
                         Inl e \<Rightarrow> Inl e
                       | Inr a' \<Rightarrow> Inr (a'\<lparr>fmm_count := fmm_count a' + 1\<rparr>))
                 else Inr a) (br_ents src) acc"
      by (rule efold_cong) (auto simp: entin)
    finally show ?thesis .
  qed
  have node: "tree_traversal_c2c (Suc n) t sink (Some key) acc macangle =
             efold (\<lambda>i a. tree_traversal_c2c n t sink (child 3 (tree_branch_map t) src i) a macangle)
               [0, 1, 2, 3, 4, 5, 6, 7] acc"
    if h: "br_mass src \<noteq> 0" "\<not> ?inside" "\<not> MAC sink src macangle" "\<not> br_leaf src"
    using h by (simp only: unfold simp_thms if_True if_False)
  show ?thesis
    using skip mac leaf node by blast
qed


lemma sqrt9: "sqrt 9 = 3"
  by (rule real_sqrt_unique) simp_all

lemma sqrt25: "sqrt 25 = 5"
  by (rule real_sqrt_unique) simp_all

text \<open>
  The claim C5 as stated fails: a source whose box shares the lower corner of the sink's
  box is neither the same box nor strictly inside it, has mass, and is accepted by the
  criterion, yet the traversal contributes nothing, while the monopole term is not zero.
\<close>

theorem c2c_strictly_inside_counterexample:
  "br_mass c5_source \<noteq> 0 \<and>
   \<not> (br_bmin c5_sink = br_bmin c5_source \<and> br_bmax c5_sink = br_bmax c5_source) \<and>
   \<not> (list_all2 (<) (br_bmin c5_sink) (br_bmin c5_source) \<and>
      list_all2 (<) (br_bmax c5_source) (br_bmax c5_sink)) \<and>
   distance (br_bmin c5_source) (br_bmax c5_source) /
     distance (br_coordinates c5_sink) (br_coordinates c5_source) < 2 \<and>
   tree_traversal_c2c 1 c5_tree c5_sink (Some 1) c5_acc0 2 = Inr c5_acc0 \<and>
   computeAcceleration (br_coordinates c5_sink) (br_coordinates c5_source)
     (br_mass c5_source) c5_acc0 \<noteq> Inr c5_acc0"
  by (simp add: c5_tree_def c5_source_def c5_sink_def c5_acc0_def distance_def sqrt9 point_eq_def point_lt_def
      point_gt_def gdimension_def upt3 computeAcceleration_def Let_def point_sub_def
      point_add_def point_scale_def)

text \<open>
  \<open>tree_traversal_c2c_step\<close> at concrete inputs: a source in the closed box of the sink,
  and the same source seen from a sink at distance 5 that the criterion accepts.
\<close>

theorem tree_traversal_c2c_step_witness:
  "tree_traversal_c2c (Suc 0) c5_tree c5_sink (Some 1) c5_acc0 2 = Inr c5_acc0 \<and>
   (\<exists>acc'. tree_traversal_c2c (Suc 0) c5_tree c5_far_sink (Some 1) c5_acc0 1 = Inr acc' \<and>
      fc acc' = [0, - 4 / 125, - 3 / 125] \<and> jacobi acc' ! 0 = - 1 / 125)"
proof -
  have a: "tree_traversal_c2c (Suc 0) c5_tree c5_sink (Some 1) c5_acc0 2 = Inr c5_acc0"
    using tree_traversal_c2c_step[where t = c5_tree and key = 1 and src = c5_source and sink = c5_sink
        and n = 0 and acc = c5_acc0 and macangle = 2, THEN conjunct1]
    by (simp add: c5_tree_def c5_source_def c5_sink_def all_lt3)
  have d: "distance (br_coordinates c5_far_sink) (br_coordinates c5_source) = 5"
    by (simp add: c5_far_sink_def c5_tree_def c5_source_def distance_def sqrt25)
  have e: "distance (br_bmin c5_source) (br_bmax c5_source) = 3"
    by (simp add: c5_tree_def c5_source_def distance_def sqrt9)
  obtain acc' where r: "tree_traversal_c2c (Suc 0) c5_tree c5_far_sink (Some 1) c5_acc0 1 = Inr acc'"
    and f: "\<forall>i<3. fc acc' ! i = fc c5_acc0 ! i + (- br_mass c5_source / 5 ^ 3) *
                (br_coordinates c5_far_sink ! i - br_coordinates c5_source ! i)"
    and j: "\<forall>i<3. \<forall>j<3. jacobi acc' ! (i * 3 + j) = jacobi c5_acc0 ! (i * 3 + j) +
                (- br_mass c5_source / 5 ^ 3) *
                ((if i = j then 1 else 0) -
                 3 * (br_coordinates c5_far_sink ! i - br_coordinates c5_source ! i) *
                     (br_coordinates c5_far_sink ! j - br_coordinates c5_source ! j) / 5\<^sup>2)"
    using tree_traversal_c2c_step[where t = c5_tree and key = 1 and src = c5_source
        and sink = c5_far_sink and n = 0 and acc = c5_acc0 and macangle = 1,
        THEN conjunct2, THEN conjunct1]
    unfolding d e
    by (auto simp: c5_tree_def c5_source_def c5_far_sink_def c5_acc0_def all_lt3)
  have len: "length (fc acc') = 3"
    using r by (simp add: computeAcceleration_def Let_def c5_tree_def c5_source_def c5_far_sink_def c5_acc0_def
        point_add_def point_scale_def point_sub_def point_eq_def point_lt_def point_gt_def
        gdimension_def upt3 MAC_def distance_def sqrt25 sqrt9 split: if_splits) auto
  have "fc acc' = [0, - 4 / 125, - 3 / 125]"
    using f len3[OF len] by (auto simp: all_lt3 c5_tree_def c5_source_def c5_far_sink_def c5_acc0_def)
  moreover have "jacobi acc' ! 0 = - 1 / 125"
    using j by (simp add: all_lt3 c5_tree_def c5_source_def c5_far_sink_def c5_acc0_def)
  ultimately show ?thesis using a r by blast
qed


text \<open>
  What the particle loop of \<open>sink_traversal_c2p\<close> computes: \<open>tmpMatrix[i*3+j]\<close> and
  \<open>tmpVector[i]\<close> are reset inside their innermost loops, so of the Hessian term only the
  summand \<open>j = k = 2\<close> is left.
\<close>

lemma c2p_grav_closed_form:
  "c2p_grav [f0, f1, f2] [j0, j1, j2, j3, j4, j5, j6, j7, j8] hes [d0, d1, d2] =
     [f0 + j0 * d0 + j1 * d1 + j2 * d2 + 1 / 2 * (d2 * hes ! 8 * d2),
      f1 + j3 * d0 + j4 * d1 + j5 * d2 + 1 / 2 * (d2 * hes ! 17 * d2),
      f2 + j6 * d0 + j7 * d1 + j8 * d2 + 1 / 2 * (d2 * hes ! 26 * d2)]"
  by (simp add: c2p_grav_def upt3 Let_def)

lemma sum_lt3: "(\<Sum>j<(3::nat). f j) = f 0 + f 1 + (f 2 :: real)"
  by (simp add: eval_nat_numeral lessThan_Suc)

text \<open>
  Claim C6 at a failing input: a leaf with one local particle at \<open>\<Delta> = (1, 0, 0)\<close> from the
  sink, \<open>F = 0\<close>, \<open>J = 0\<close> and \<open>H[0][0][0] = 2\<close>.  The code stores the force \<open>(0, 0, 0)\<close>; the
  expansion of the claim gives \<open>(1, 0, 0)\<close>.
\<close>

theorem sink_traversal_c2p_drops_hessian_terms:
  "(case sink_traversal_c2p 1 c6_tree (Some 1) [0, 0, 0] [0, 0, 0] (replicate 9 0)
           c6_hessian c6_state0 of
      Inl e \<Rightarrow> None
    | Inr st \<Rightarrow> gravForce st 7) = Some [0, 0, 0] \<and>
   taylor_expansion_spec [0, 0, 0] (replicate 9 0) c6_hessian [1, 0, 0] = [1, 0, 0]"
  by (simp add: c6_tree_def c6_leaf_def c6_hessian_def c6_state0_def is_local_def point_sub_def
      c2p_grav_def taylor_expansion_spec_def upt3 sum_lt3 Let_def)

text \<open>
  Claim C7.  The guard \<open>i==j==k\<close> of the Hessian loop is \<open>(i==j)==k\<close>.  On the index triples
  of \<open>{0,1,2}\<^sup>3\<close> it differs from the triple equality exactly on the ten triples listed.  So
  the entry that \<open>computeAcceleration\<close> stores has its first term multiplied by 3 at
  \<open>(0,0,0)\<close>, where the triple equality selects 1, and by 1 at \<open>(0,1,0)\<close>, where the triple
  equality selects 3; at \<open>(1,1,1)\<close> both select 1.  For a sink at \<open>(1,0,0)\<close> and a source of
  mass 1 at the origin \<open>computeAcceleration\<close> stores \<open>-12\<close> in \<open>hessian[0]\<close>, where the triple
  equality gives \<open>6\<close>.
\<close>

theorem chained_comparison_is_not_triple_equality:
  "[(i, j, k). i \<leftarrow> [0..<3], j \<leftarrow> [0..<3], k \<leftarrow> [0..<3],
      chained_eq (int i) (int j) (int k) \<noteq> (i = j \<and> j = k)] =
     [(0, 0, 0), (0, 0, 1), (0, 1, 0), (0, 2, 0), (1, 0, 0), (1, 2, 0), (2, 0, 0), (2, 1, 0),
      (2, 2, 1), (2, 2, 2)] \<and>
   hessian_factor 0 0 0 = 3 \<and> hessian_factor 2 2 2 = 3 \<and> hessian_factor 1 1 1 = 1 \<and>
   hessian_factor 0 1 0 = 1 \<and> hessian_factor 0 1 2 = 3 \<and>
   hessian_entry c d x 0 0 0 = 3 * (3 * c * x ! 0) - 5 * c * (x ! 0) ^ 3 / d\<^sup>2 \<and>
   hessian_entry_triple_equality c d x 0 0 0 = 1 * (3 * c * x ! 0) - 5 * c * (x ! 0) ^ 3 / d\<^sup>2 \<and>
   hessian_entry c d x 1 1 1 = 1 * (3 * c * x ! 1) - 5 * c * (x ! 1) ^ 3 / d\<^sup>2 \<and>
   hessian_entry c d x 0 1 0 = 1 * (c * x ! 1) - 5 * c * (x ! 0)\<^sup>2 * x ! 1 / d\<^sup>2 \<and>
   hessian_entry_triple_equality c d x 0 1 0 = 3 * (c * x ! 1) - 5 * c * (x ! 0)\<^sup>2 * x ! 1 / d\<^sup>2 \<and>
   (case computeAcceleration [1, 0, 0] [0, 0, 0] 1 c5_acc0 of
      Inl e \<Rightarrow> None | Inr a \<Rightarrow> Some (hessian a ! 0)) = Some (- 12) \<and>
   hessian_entry_triple_equality (- 3) 1 [1, 0, 0] 0 0 0 = 6"
proof -
  have a: "[(i, j, k). i \<leftarrow> [0..<3], j \<leftarrow> [0..<3], k \<leftarrow> [0..<3],
      chained_eq (int i) (int j) (int k) \<noteq> (i = j \<and> j = k)] =
     [(0, 0, 0), (0, 0, 1), (0, 1, 0), (0, 2, 0), (1, 0, 0), (1, 2, 0), (2, 0, 0), (2, 1, 0),
      (2, 2, 1), (2, 2, 2)] \<and>
   hessian_factor 0 0 0 = 3 \<and> hessian_factor 2 2 2 = 3 \<and> hessian_factor 1 1 1 = 1 \<and>
   hessian_factor 0 1 0 = 1 \<and> hessian_factor 0 1 2 = 3"
    by (simp add: upt3 chained_eq_def hessian_factor_def)
  have b: "hessian_entry c d x 0 0 0 = 3 * (3 * c * x ! 0) - 5 * c * (x ! 0) ^ 3 / d\<^sup>2"
    "hessian_entry_triple_equality c d x 0 0 0 = 1 * (3 * c * x ! 0) - 5 * c * (x ! 0) ^ 3 / d\<^sup>2"
    "hessian_entry c d x 1 1 1 = 1 * (3 * c * x ! 1) - 5 * c * (x ! 1) ^ 3 / d\<^sup>2"
    "hessian_entry c d x 0 1 0 = 1 * (c * x ! 1) - 5 * c * (x ! 0)\<^sup>2 * x ! 1 / d\<^sup>2"
    "hessian_entry_triple_equality c d x 0 1 0 = 3 * (c * x ! 1) - 5 * c * (x ! 0)\<^sup>2 * x ! 1 / d\<^sup>2"
    by (simp_all add: hessian_entry_def hessian_entry_triple_equality_def hessian_factor_def
        chained_eq_def power2_eq_square power3_eq_cube)
  have d1: "distance [1, 0, 0] [0, 0, 0] = 1" by (simp add: distance_def)
  have c: "(case computeAcceleration [1, 0, 0] [0, 0, 0] 1 c5_acc0 of
      Inl e \<Rightarrow> None | Inr a \<Rightarrow> Some (hessian a ! 0)) = Some (- 12)"
    by (simp add: computeAcceleration_def d1 c5_acc0_def Let_def upt3 point_sub_def
        hessian_entry_def hessian_factor_def chained_eq_def numeral_eq_Suc)
  have e: "hessian_entry_triple_equality (- 3) 1 [1, 0, 0] 0 0 0 = 6"
    by (simp add: hessian_entry_triple_equality_def)
  from a b c e show ?thesis by (intro conjI) (simp_all only:)
qed

section \<open>Lookup of a branch\<close>

text \<open>
  Claim C10.  \<open>get\<close> on a key that is not in the branch map fails its assertion; on a key
  that is in the map it returns the branch stored under the key and the tree unchanged.
\<close>

theorem get_branch_spec:
  "(tree_branch_map t bid = None \<longrightarrow> get_branch t bid = Inl AssertionFailed) \<and>
   (\<forall>b. tree_branch_map t bid = Some b \<longrightarrow> get_branch t bid = Inr (b, t))"
  by (simp add: get_branch_def)

text \<open>\<open>get_branch_spec\<close> on a tree that holds the key 1 and does not hold the key 2.\<close>

theorem get_branch_spec_witness:
  "get_branch c6_tree 2 = Inl AssertionFailed \<and> get_branch c6_tree 1 = Inr (c6_leaf, c6_tree)"
  using get_branch_spec[of c6_tree 2] get_branch_spec[of c6_tree 1]
  by (simp add: c6_tree_def)

section \<open>Properties of the aggregation\<close>

lemma struct_eq_refl: "struct_eq p m m"
  by (simp add: struct_eq_def)

lemma struct_eq_sym: "struct_eq p m1 m2 \<Longrightarrow> struct_eq p m2 m1"
  by (simp add: struct_eq_def)

lemma struct_eq_trans: "struct_eq p m1 m2 \<Longrightarrow> struct_eq p m2 m3 \<Longrightarrow> struct_eq p m1 m3"
  by (simp add: struct_eq_def)

lemma struct_eq_upd:
  "m k = Some b \<Longrightarrow> p b' = p b \<Longrightarrow> struct_eq p m (m(k \<mapsto> b'))"
  by (simp add: struct_eq_def)

lemma struct_eq_None: "struct_eq p m1 m2 \<Longrightarrow> (m1 k = None) = (m2 k = None)"
  by (metis struct_eq_def option.map_disc_iff)

lemma struct_eq_Some:
  "struct_eq p m1 m2 \<Longrightarrow> m1 k = Some b1 \<Longrightarrow> \<exists>b2. m2 k = Some b2 \<and> p b1 = p b2"
  unfolding struct_eq_def
  by (metis map_option_eq_Some)

lemma efold_invariant:
  assumes "efold f xs s = Inr s'" and "P s"
    and "\<And>x a b. x \<in> set xs \<Longrightarrow> P a \<Longrightarrow> f x a = Inr b \<Longrightarrow> P b"
  shows "P s'"
  using assms
proof (induction xs arbitrary: s)
  case Nil
  then show ?case by simp
next
  case (Cons x xs)
  from Cons.prems(1) obtain s1 where s1: "f x s = Inr s1" and rest: "efold f xs s1 = Inr s'"
    by (auto split: sum.splits)
  have "P s1" using Cons.prems(3)[OF _ Cons.prems(2) s1] by simp
  show ?case
    by (rule Cons.IH[OF rest \<open>P s1\<close>]) (use Cons.prems(3) in auto)
qed

lemma efold_rel:
  assumes "efold f xs s = Inr s'" and "R s u"
    and "\<And>x a b c. x \<in> set xs \<Longrightarrow> R a c \<Longrightarrow> f x a = Inr b \<Longrightarrow> \<exists>d. g x c = Inr d \<and> R b d"
  shows "\<exists>u'. efold g xs u = Inr u' \<and> R s' u'"
  using assms
proof (induction xs arbitrary: s u)
  case Nil
  then show ?case by simp
next
  case (Cons x xs)
  from Cons.prems(1) obtain s1 where s1: "f x s = Inr s1" and rest: "efold f xs s1 = Inr s'"
    by (auto split: sum.splits)
  from Cons.prems(3)[OF _ Cons.prems(2) s1] obtain u1 where u1: "g x u = Inr u1" and r1: "R s1 u1"
    by auto
  have "\<exists>u'. efold g xs u1 = Inr u' \<and> R s' u'"
    by (rule Cons.IH[OF rest r1]) (use Cons.prems(3) in auto)
  then show ?case using u1 by simp
qed

lemma post_order_struct:
  assumes save: "\<And>acc b b'. save acc b = Inr b' \<Longrightarrow> p b' = p b"
    and run: "post_order leaf node init save D n m b = Inr m'"
  shows "struct_eq p m m'"
  using run
proof (induction n arbitrary: m b m')
  case 0
  then show ?case by simp
next
  case (Suc n)
  from Suc.prems obtain key br where b: "b = Some key" and br: "m key = Some br"
    by (auto split: option.splits)
  let ?F = "\<lambda>i (m, acc).
                      let branch = child D m br i in
                      (case post_order leaf node init save D n m branch of
                         Inl e \<Rightarrow> Inl e
                       | Inr m' \<Rightarrow>
                          (case branch of None \<Rightarrow> Inl NullPointer | Some ck \<Rightarrow>
                           (case m' ck of None \<Rightarrow> Inl NullPointer | Some cb \<Rightarrow>
                            (case node cb acc of
                               Inl e \<Rightarrow> Inl e
                             | Inr acc' \<Rightarrow> Inr (m', acc')))))"
  from Suc.prems b br obtain m1 acc b' b'' where
    body: "(if br_leaf br
               then (case efold leaf (br_ents br) init of
                       Inl e \<Rightarrow> Inl e
                     | Inr acc \<Rightarrow> Inr (m, acc))
               else efold ?F [0..<2 ^ D] (m, init)) = Inr (m1, acc)"
    and b': "m1 key = Some b'" and sv: "save acc b' = Inr b''" and m': "m' = m1(key \<mapsto> b'')"
    by (auto split: sum.splits option.splits prod.splits)
  have s1: "struct_eq p m m1"
  proof (cases "br_leaf br")
    case True
    with body have "m1 = m" by (auto split: sum.splits)
    then show ?thesis by (simp add: struct_eq_refl)
  next
    case False
    with body have ef: "efold ?F [0..<2 ^ D] (m, init) = Inr (m1, acc)" by simp
    have "(\<lambda>(x, _). struct_eq p m x) (m1, acc)"
    proof (rule efold_invariant[OF ef])
      show "(\<lambda>(x, _). struct_eq p m x) (m, init)" by (simp add: struct_eq_refl)
    next
      fix x a c
      assume a: "(\<lambda>(x, _). struct_eq p m x) a" and f: "?F x a = Inr c"
      obtain ma aa where [simp]: "a = (ma, aa)" by (cases a)
      obtain mc ac where [simp]: "c = (mc, ac)" by (cases c)
      from f have "post_order leaf node init save D n ma (child D ma br x) = Inr mc"
        by (auto simp: Let_def split: sum.splits option.splits)
      from Suc.IH[OF this] a show "(\<lambda>(x, _). struct_eq p m x) c"
        by (auto intro: struct_eq_trans)
    qed
    then show ?thesis by simp
  qed
  have "struct_eq p m1 m'"
    unfolding m' using b' save[OF sv] by (simp add: struct_eq_def)
  with s1 show ?case by (rule struct_eq_trans)
qed


lemma same_or_untouched_refl: "same_or_untouched m1 m2 m1 m2"
  by (simp add: same_or_untouched_def)

lemma same_or_untouched_trans:
  "same_or_untouched m1 m2 a1 a2 \<Longrightarrow> same_or_untouched a1 a2 b1 b2 \<Longrightarrow> same_or_untouched m1 m2 b1 b2"
  unfolding same_or_untouched_def by metis

lemma child_struct_eq:
  assumes "struct_eq p m1 m2" and "br_id br1 = br_id br2"
  shows "child D m1 br1 i = child D m2 br2 i"
  using assms struct_eq_None[OF assms(1)] by (simp add: child_def Let_def)

lemma post_order_deterministic:
  assumes save1: "\<And>acc b b'. save acc b = Inr b' \<Longrightarrow> p b' = p b"
    and save2: "\<And>acc b1 b2. p b1 = p b2 \<Longrightarrow> save acc b1 = save acc b2"
    and pstr: "\<And>b1 b2. p b1 = p b2 \<Longrightarrow>
        br_id b1 = br_id b2 \<and> br_leaf b1 = br_leaf b2 \<and> br_ents b1 = br_ents b2"
    and se: "struct_eq p m1 m2"
    and run: "post_order leaf node init save D n m1 b = Inr m1'"
  shows "\<exists>m2'. post_order leaf node init save D n m2 b = Inr m2' \<and>
           same_or_untouched m1 m2 m1' m2' \<and> (\<forall>key. b = Some key \<longrightarrow> m1' key = m2' key)"
  using se run
proof (induction n arbitrary: m1 m2 b m1')
  case 0
  then show ?case by simp
next
  case (Suc n)
  note se = Suc.prems(1)
  from Suc.prems(2) obtain key br1 where b: "b = Some key" and br1: "m1 key = Some br1"
    by (auto split: option.splits)
  from struct_eq_Some[OF se br1] obtain br2 where br2: "m2 key = Some br2" and pp: "p br1 = p br2"
    by blast
  from pstr[OF pp] have ids: "br_id br1 = br_id br2" and lf: "br_leaf br1 = br_leaf br2"
    and ents: "br_ents br1 = br_ents br2" by auto
  let ?F = "\<lambda>br i (m, acc).
                      let branch = child D m br i in
                      (case post_order leaf node init save D n m branch of
                         Inl e \<Rightarrow> Inl e
                       | Inr m' \<Rightarrow>
                          (case branch of None \<Rightarrow> Inl NullPointer | Some ck \<Rightarrow>
                           (case m' ck of None \<Rightarrow> Inl NullPointer | Some cb \<Rightarrow>
                            (case node cb acc of
                               Inl e \<Rightarrow> Inl e
                             | Inr acc' \<Rightarrow> Inr (m', acc')))))"
  let ?body = "\<lambda>m br. (if br_leaf br
               then (case efold leaf (br_ents br) init of
                       Inl e \<Rightarrow> Inl e
                     | Inr acc \<Rightarrow> Inr (m, acc))
               else efold (?F br) [0..<2 ^ D] (m, init))"
  from Suc.prems(2) b br1 obtain ma1 acc b1' b1'' where
    body1: "?body m1 br1 = Inr (ma1, acc)"
    and b1': "ma1 key = Some b1'" and sv: "save acc b1' = Inr b1''"
    and m1': "m1' = ma1(key \<mapsto> b1'')"
    by (auto split: sum.splits option.splits prod.splits)
  let ?R = "\<lambda>(ma, aa) (mc, ac). aa = ac \<and> struct_eq p ma mc \<and> same_or_untouched m1 m2 ma mc"
  have "\<exists>u'. ?body m2 br2 = Inr u' \<and> ?R (ma1, acc) u'"
  proof (cases "br_leaf br1")
    case True
    with body1 have "ma1 = m1" and "efold leaf (br_ents br1) init = Inr acc"
      by (auto split: sum.splits)
    then show ?thesis using True lf ents se by (simp add: same_or_untouched_refl)
  next
    case False
    with body1 have ef: "efold (?F br1) [0..<2 ^ D] (m1, init) = Inr (ma1, acc)" by simp
    have "\<exists>u'. efold (?F br2) [0..<2 ^ D] (m2, init) = Inr u' \<and> ?R (ma1, acc) u'"
    proof (rule efold_rel[OF ef, where R = ?R])
      show "?R (m1, init) (m2, init)" using se by (simp add: same_or_untouched_refl)
    next
      fix x a b' c
      assume R: "?R a c" and f: "?F br1 x a = Inr b'"
      obtain ma aa where a: "a = (ma, aa)" by (cases a)
      obtain mc ac where c: "c = (mc, ac)" by (cases c)
      from R a c have aeq: "ac = aa" and sac: "struct_eq p ma mc"
        and sou: "same_or_untouched m1 m2 ma mc" by auto
      have ch: "child D ma br1 x = child D mc br2 x"
        by (rule child_struct_eq[OF sac ids])
      from f a obtain mb ck cb acc' where
        r1: "post_order leaf node init save D n ma (child D ma br1 x) = Inr mb"
        and ck: "child D ma br1 x = Some ck" and cb: "mb ck = Some cb"
        and nd: "node cb aa = Inr acc'" and b': "b' = (mb, acc')"
        by (auto simp: Let_def split: sum.splits option.splits)
      from Suc.IH[OF sac r1] obtain md where
        r2: "post_order leaf node init save D n mc (child D ma br1 x) = Inr md"
        and sou2: "same_or_untouched ma mc mb md" and eqk: "mb ck = md ck"
        using ck by auto
      have s1: "struct_eq p ma mb"
        by (rule post_order_struct[where p = p and save = save, OF save1 r1])
      have s2: "struct_eq p mc md"
        by (rule post_order_struct[where p = p and save = save, OF save1 r2])
      have sbd: "struct_eq p mb md"
        using s1 s2 sac by (meson struct_eq_sym struct_eq_trans)
      have "?F br2 x c = Inr (md, acc')"
        using r2 ck cb nd eqk by (simp add: c aeq ch[symmetric] Let_def)
      moreover have "?R b' (md, acc')"
        using sbd same_or_untouched_trans[OF sou sou2] by (simp add: b')
      ultimately show "\<exists>d. ?F br2 x c = Inr d \<and> ?R b' d" by blast
    qed
    then show ?thesis using False lf by simp
  qed
  then obtain ma2 where body2: "?body m2 br2 = Inr (ma2, acc)"
    and sa: "struct_eq p ma1 ma2" and sou: "same_or_untouched m1 m2 ma1 ma2"
    by auto
  from struct_eq_Some[OF sa b1'] obtain b2' where b2': "ma2 key = Some b2'" and pb: "p b1' = p b2'"
    by blast
  have sv2: "save acc b2' = Inr b1''" using save2[OF pb, of acc] sv by simp
  have run2: "post_order leaf node init save D (Suc n) m2 b = Inr (ma2(key \<mapsto> b1''))"
    using b br2 body2 b2' sv2 by (simp del: efold.simps)
  have sou': "same_or_untouched m1 m2 m1' (ma2(key \<mapsto> b1''))"
    using sou unfolding m1' same_or_untouched_def by auto
  have eqk: "\<forall>k. b = Some k \<longrightarrow> m1' k = (ma2(key \<mapsto> b1'')) k"
    by (simp add: b m1')
  show ?case
    using run2 sou' eqk by blast
qed

lemma post_order_idempotent:
  assumes save1: "\<And>acc b b'. save acc b = Inr b' \<Longrightarrow> p b' = p b"
    and save2: "\<And>acc b1 b2. p b1 = p b2 \<Longrightarrow> save acc b1 = save acc b2"
    and pstr: "\<And>b1 b2. p b1 = p b2 \<Longrightarrow>
        br_id b1 = br_id b2 \<and> br_leaf b1 = br_leaf b2 \<and> br_ents b1 = br_ents b2"
    and run: "post_order leaf node init save D n m b = Inr m'"
  shows "post_order leaf node init save D n m' b = Inr m'"
proof -
  have se: "struct_eq p m m'"
    by (rule post_order_struct[where p = p and save = save, OF save1 run])
  have "\<exists>m2'. post_order leaf node init save D n m' b = Inr m2' \<and>
           same_or_untouched m m' m' m2' \<and> (\<forall>key. b = Some key \<longrightarrow> m' key = m2' key)"
  proof (rule post_order_deterministic[where p = p])
    show "\<And>acc b b'. save acc b = Inr b' \<Longrightarrow> p b' = p b" by (rule save1)
    show "\<And>acc b1 b2. p b1 = p b2 \<Longrightarrow> save acc b1 = save acc b2" by (rule save2)
    show "\<And>b1 b2. p b1 = p b2 \<Longrightarrow>
        br_id b1 = br_id b2 \<and> br_leaf b1 = br_leaf b2 \<and> br_ents b1 = br_ents b2" by (rule pstr)
    show "struct_eq p m m'" by (rule se)
    show "post_order leaf node init save D n m b = Inr m'" by (rule run)
  qed
  then obtain m2' where
    r: "post_order leaf node init save D n m' b = Inr m2'"
    and sou: "same_or_untouched m m' m' m2'"
    by blast
  have "m2' = m'"
  proof (rule ext)
    fix k
    from sou show "m2' k = m' k" unfolding same_or_untouched_def by metis
  qed
  with r show ?thesis by simp
qed

lemma update_branches_save_struct:
  "update_branches_save D acc b = Inr b' \<Longrightarrow> branch_structure b' = branch_structure b"
  by (auto simp: update_branches_save_def branch_structure_def Let_def)

lemma update_branches_save_cong:
  "branch_structure b1 = branch_structure b2 \<Longrightarrow>
     update_branches_save D acc b1 = update_branches_save D acc b2"
  by (cases b1, cases b2) (simp add: update_branches_save_def branch_structure_def Let_def)

lemma branch_structure_fields:
  "branch_structure b1 = branch_structure b2 \<Longrightarrow>
     br_id b1 = br_id b2 \<and> br_leaf b1 = br_leaf b2 \<and> br_ents b1 = br_ents b2"
  by (simp add: branch_structure_def)

lemma tree_traversal_com_save_struct:
  "tree_traversal_com_save acc b = Inr b' \<Longrightarrow> branch_structure_com b' = branch_structure_com b"
  by (auto simp: tree_traversal_com_save_def branch_structure_com_def Let_def split: if_splits)

lemma tree_traversal_com_save_cong:
  "branch_structure_com b1 = branch_structure_com b2 \<Longrightarrow>
     tree_traversal_com_save acc b1 = tree_traversal_com_save acc b2"
  by (cases b1, cases b2) (simp add: tree_traversal_com_save_def branch_structure_com_def Let_def)

lemma branch_structure_com_fields:
  "branch_structure_com b1 = branch_structure_com b2 \<Longrightarrow>
     br_id b1 = br_id b2 \<and> br_leaf b1 = br_leaf b2 \<and> br_ents b1 = br_ents b2"
  by (simp add: branch_structure_com_def)

lemma update_branches_idem:
  assumes "update_branches D dbl_max n epsilon t = Inr t'"
  shows "update_branches D dbl_max n epsilon t' = Inr t'"
proof -
  from assms obtain m' where
    run: "post_order (update_branches_leaf D epsilon) (update_branches_node D)
             (update_branches_init D dbl_max) (update_branches_save D) D n
             (tree_branch_map t) (Some root_id) = Inr m'"
    and t': "t' = t\<lparr>tree_branch_map := m'\<rparr>"
    by (auto simp: update_branches_def root_def split: sum.splits)
  have "post_order (update_branches_leaf D epsilon) (update_branches_node D)
             (update_branches_init D dbl_max) (update_branches_save D) D n m' (Some root_id) = Inr m'"
    by (rule post_order_idempotent[where p = branch_structure, OF _ _ _ run])
       (auto dest: update_branches_save_struct update_branches_save_cong branch_structure_fields)
  then show ?thesis by (simp add: update_branches_def root_def t')
qed

lemma tree_traversal_com_idem:
  assumes "tree_traversal_com n t = Inr t'"
  shows "tree_traversal_com n t' = Inr t'"
proof -
  from assms obtain m' where
    run: "post_order tree_traversal_com_leaf tree_traversal_com_node tree_traversal_com_init
             tree_traversal_com_save gdimension n (tree_branch_map t) (Some root_id) = Inr m'"
    and t': "t' = t\<lparr>tree_branch_map := m'\<rparr>"
    by (auto simp: tree_traversal_com_def root_def split: sum.splits)
  have "post_order tree_traversal_com_leaf tree_traversal_com_node tree_traversal_com_init
             tree_traversal_com_save gdimension n m' (Some root_id) = Inr m'"
    by (rule post_order_idempotent[where p = branch_structure_com, OF _ _ _ run])
       (auto dest: tree_traversal_com_save_struct tree_traversal_com_save_cong
          branch_structure_com_fields)
  then show ?thesis by (simp add: tree_traversal_com_def root_def t')
qed

lemma efold_total:
  assumes "P s" and "\<And>x a. x \<in> set xs \<Longrightarrow> P a \<Longrightarrow> \<exists>b. f x a = Inr b \<and> P b"
  shows "\<exists>s'. efold f xs s = Inr s' \<and> P s'"
  using assms
proof (induction xs arbitrary: s)
  case Nil
  then show ?case by simp
next
  case (Cons x xs)
  from Cons.prems(2)[of x s] Cons.prems(1) obtain s1 where s1: "f x s = Inr s1" and p1: "P s1"
    by auto
  have "\<exists>s'. efold f xs s1 = Inr s' \<and> P s'"
    by (rule Cons.IH[OF p1]) (use Cons.prems(2) in auto)
  then show ?case using s1 by simp
qed

lemma complete_struct_eq:
  assumes pstr: "\<And>b1 b2. p b1 = p b2 \<Longrightarrow>
        br_id b1 = br_id b2 \<and> br_leaf b1 = br_leaf b2 \<and> br_ents b1 = br_ents b2"
    and se: "struct_eq p m1 m2"
  shows "complete D n m1 k = complete D n m2 k"
proof (induction n arbitrary: k)
  case 0
  show ?case
  proof (cases "m1 k")
    case None
    then show ?thesis using struct_eq_None[OF se, of k] by simp
  next
    case (Some b1)
    from struct_eq_Some[OF se Some] obtain b2 where "m2 k = Some b2" "p b1 = p b2" by blast
    then show ?thesis using Some pstr[of b1 b2] by simp
  qed
next
  case (Suc n)
  show ?case
  proof (cases "m1 k")
    case None
    then show ?thesis using struct_eq_None[OF se, of k] by simp
  next
    case (Some b1)
    from struct_eq_Some[OF se Some] obtain b2 where "m2 k = Some b2" "p b1 = p b2" by blast
    then show ?thesis using Some pstr[of b1 b2] Suc.IH by simp
  qed
qed

lemma post_order_total:
  fixes leaf :: "'a entity \<Rightarrow> 'c \<Rightarrow> error + 'c"
  assumes leaf_ok: "\<And>e a. \<exists>a'. leaf e a = Inr a'"
    and node_ok: "\<And>b a. \<exists>a'. node b a = Inr a'"
    and save_ok: "\<And>a b. \<exists>b'. save a b = Inr b'"
    and save1: "\<And>acc b b'. save acc b = Inr b' \<Longrightarrow> p b' = p b"
    and pstr: "\<And>b1 b2. p b1 = p b2 \<Longrightarrow>
        br_id b1 = br_id b2 \<and> br_leaf b1 = br_leaf b2 \<and> br_ents b1 = br_ents b2"
    and cmp: "complete D n m k"
  shows "\<exists>m'. post_order leaf node init save D (Suc n) m (Some k) = Inr m'"
  using cmp
proof (induction n arbitrary: m k)
  case 0
  then obtain br where br: "m k = Some br" and lf: "br_leaf br"
    by (auto split: option.splits)
  have "\<exists>s'. efold leaf (br_ents br) init = Inr s' \<and> True"
    by (rule efold_total) (use leaf_ok in auto)
  then obtain acc where acc: "efold leaf (br_ents br) init = Inr acc" by blast
  from save_ok[of acc br] obtain b' where "save acc br = Inr b'" by blast
  then show ?case using br lf acc by simp
next
  case (Suc n)
  then obtain br where br: "m k = Some br" and id: "br_id br = k"
    and ch: "br_leaf br \<or> list_all (\<lambda>i. complete D n m (push D k i)) [0..<2 ^ D]"
    by (auto split: option.splits)
  let ?F = "\<lambda>i (m, acc).
                      let branch = child D m br i in
                      (case post_order leaf node init save D (Suc n) m branch of
                         Inl e \<Rightarrow> Inl e
                       | Inr m' \<Rightarrow>
                          (case branch of None \<Rightarrow> Inl NullPointer | Some ck \<Rightarrow>
                           (case m' ck of None \<Rightarrow> Inl NullPointer | Some cb \<Rightarrow>
                            (case node cb acc of
                               Inl e \<Rightarrow> Inl e
                             | Inr acc' \<Rightarrow> Inr (m', acc')))))"
  let ?body = "(if br_leaf br
               then (case efold leaf (br_ents br) init of
                       Inl e \<Rightarrow> Inl e
                     | Inr acc \<Rightarrow> Inr (m, acc))
               else efold ?F [0..<2 ^ D] (m, init))"
  let ?P = "\<lambda>(ma, acc). struct_eq p m ma"
  have "\<exists>s'. ?body = Inr s' \<and> ?P s'"
  proof (cases "br_leaf br")
    case True
    have "\<exists>s'. efold leaf (br_ents br) init = Inr s' \<and> True"
      by (rule efold_total) (use leaf_ok in auto)
    then show ?thesis using True by (auto simp: struct_eq_refl)
  next
    case False
    with ch have all: "list_all (\<lambda>i. complete D n m (push D k i)) [0..<2 ^ D]" by simp
    have "\<exists>s'. efold ?F [0..<2 ^ D] (m, init) = Inr s' \<and> ?P s'"
    proof (rule efold_total)
      show "?P (m, init)" by (simp add: struct_eq_refl)
    next
      fix x and a :: "'a branch_map \<times> 'c"
      assume x: "x \<in> set [0..<2 ^ D]" and Pa: "?P a"
      obtain ma aa where a: "a = (ma, aa)" by (cases a)
      from Pa a have se: "struct_eq p m ma" by simp
      from all x have c: "complete D n m (push D k x)" by (simp add: list_all_iff)
      then have c': "complete D n ma (push D k x)"
        using complete_struct_eq[where p = p, OF pstr se] by blast
      then have ne: "ma (push D k x) \<noteq> None" by (cases n) (auto split: option.splits)
      then have chd: "child D ma br x = Some (push D k x)"
        by (auto simp: child_def id Let_def)
      from Suc.IH[OF c'] obtain mb where
        r: "post_order leaf node init save D (Suc n) ma (Some (push D k x)) = Inr mb" by blast
      have sb: "struct_eq p ma mb"
        by (rule post_order_struct[where p = p and save = save, OF save1 r])
      with ne obtain cb where cb: "mb (push D k x) = Some cb"
        using struct_eq_None[OF sb, of "push D k x"] by auto
      from node_ok[of cb aa] obtain acc' where nd: "node cb aa = Inr acc'" by blast
      have "?F x a = Inr (mb, acc')"
        using r chd cb nd by (simp add: a Let_def)
      moreover have "?P (mb, acc')" using se sb by (auto intro: struct_eq_trans)
      ultimately show "\<exists>b. ?F x a = Inr b \<and> ?P b" by blast
    qed
    then show ?thesis using False by simp
  qed
  then obtain m1 acc where body: "?body = Inr (m1, acc)" and se1: "struct_eq p m m1"
    by auto
  from struct_eq_Some[OF se1 br] obtain b1 where b1: "m1 k = Some b1" by blast
  from save_ok[of acc b1] obtain b' where sv: "save acc b1 = Inr b'" by blast
  show ?case
    using br body b1 sv by (simp del: efold.simps)
qed

lemma update_branches_total:
  assumes "complete D n (tree_branch_map t) root_id"
  shows "\<exists>t'. update_branches D dbl_max (Suc n) epsilon t = Inr t'"
proof -
  have "\<exists>m'. post_order (update_branches_leaf D epsilon) (update_branches_node D)
             (update_branches_init D dbl_max) (update_branches_save D) D (Suc n)
             (tree_branch_map t) (Some root_id) = Inr m'"
    by (rule post_order_total[where p = branch_structure, OF _ _ _ _ _ assms])
       (auto simp: update_branches_leaf_def update_branches_node_def update_branches_save_def
          branch_structure_def Let_def)
  then show ?thesis by (auto simp: update_branches_def root_def)
qed

lemma upt2: "[0..<2] = [0, 1]"
  by (simp add: upt_rec)

lemma ex_tree_complete: "complete 1 1 (tree_branch_map ex_tree) root_id"
  by (simp add: ex_tree_def ex_branch_def root_id_def push_def upt2)

lemma ex_tree_update:
  "\<exists>t'. update_branches 1 DBL_MAX 2 0 ex_tree = Inr t' \<and>
     map_option br_mass (tree_branch_map t' 1) = Some 3 \<and>
     map_option br_sub_entities (tree_branch_map t' 1) = Some 2 \<and>
     map_option br_bmin (tree_branch_map t' 1) = Some [1 / 4] \<and>
     map_option br_bmax (tree_branch_map t' 1) = Some [3 / 4] \<and>
     map_option br_coordinates (tree_branch_map t' 1) = Some [7 / 12]"
  by (simp add: update_branches_def root_def root_id_def ex_tree_def ex_branch_def ex_entity_def
      numeral_2_eq_2 child_def push_def upt2 Let_def update_branches_leaf_def
      update_branches_node_def update_branches_init_def update_branches_save_def
      for_dims_def std_max_def std_min_def DBL_MAX_def)

lemma post_order_fuel2:
  "post_order l nd i s D 2 m b = post_order l nd i s D (Suc (Suc 0)) m b"
  by (simp add: numeral_2_eq_2)

lemma ex_tree3_com: "\<exists>u'. tree_traversal_com 2 ex_tree3 = Inr u'"
  by (simp add: tree_traversal_com_def root_def root_id_def ex_tree3_def ex_branch3_def
      ex_entity3_def post_order_fuel2 child_def push_def upt8 upt3 Let_def
      tree_traversal_com_leaf_def tree_traversal_com_node_def tree_traversal_com_init_def
      tree_traversal_com_save_def gdimension_def is_local_def
      for_dims_def point_add_def point_scale_def)


text \<open>
  Claim C8.  A second run of the aggregation on the tree that a first run returned
  returns that very tree: every branch keeps its mass, centre of mass, bounding box and
  number of sub-entities, value for value.  This holds for \<open>update_branches\<close> over any
  carrier with any arithmetic (so for doubles as they are) and for \<open>tree_traversal_com\<close>;
  and on a complete tree of depth at most \<open>n\<close> the run of \<open>update_branches\<close> that may
  recurse \<open>n + 1\<close> levels deep does return a tree.
\<close>

theorem com_aggregation_idempotent:
  "(update_branches D dbl_max n epsilon t = Inr t' \<longrightarrow>
      update_branches D dbl_max n epsilon t' = Inr t') \<and>
   (complete D n (tree_branch_map t) root_id \<longrightarrow>
      (\<exists>t'. update_branches D dbl_max (Suc n) epsilon t = Inr t')) \<and>
   (tree_traversal_com n u = Inr u' \<longrightarrow> tree_traversal_com n u' = Inr u')"
  using update_branches_idem[of D dbl_max n epsilon t t']
    update_branches_total[of D n t dbl_max epsilon]
    tree_traversal_com_idem[of n u u']
  by blast

text \<open>
  \<open>com_aggregation_idempotent\<close> on the tree \<open>ex_tree\<close> (one dimension, a root and two
  leaves) and on the tree \<open>ex_tree3\<close> (three dimensions, a root and eight leaves).
\<close>

theorem com_aggregation_idempotent_witness:
  "(\<exists>t'. update_branches 1 DBL_MAX 2 0 ex_tree = Inr t' \<and>
      update_branches 1 DBL_MAX 2 0 t' = Inr t' \<and>
      map_option br_mass (tree_branch_map t' 1) = Some 3 \<and>
      map_option br_sub_entities (tree_branch_map t' 1) = Some 2) \<and>
   (\<exists>u'. tree_traversal_com 2 ex_tree3 = Inr u' \<and> tree_traversal_com 2 u' = Inr u')"
proof -
  from ex_tree_update obtain t' where
    r: "update_branches 1 DBL_MAX 2 0 ex_tree = Inr t'"
    and v: "map_option br_mass (tree_branch_map t' 1) = Some 3"
      "map_option br_sub_entities (tree_branch_map t' 1) = Some 2"
    by blast
  from com_aggregation_idempotent[where D = 1 and dbl_max = DBL_MAX and n = 2 and epsilon = 0
      and t = ex_tree and t' = t'] r
  have i: "update_branches 1 DBL_MAX 2 0 t' = Inr t'" by blast
  from ex_tree3_com obtain u' where q: "tree_traversal_com 2 ex_tree3 = Inr u'" by blast
  from com_aggregation_idempotent[where n = 2 and u = ex_tree3 and u' = u'] q
  have j: "tree_traversal_com 2 u' = Inr u'" by blast
  show ?thesis using r v i q j by blast
qed

section \<open>The invariant of the branch map\<close>

lemma push_inj:
  assumes "push D k i = push D k' i'" "i < 2 ^ D" "i' < 2 ^ D"
  shows "k = k' \<and> i = i'"
proof -
  from assms(1) have e: "k * 2 ^ D + i = k' * 2 ^ D + i'" by (simp add: push_def)
  have "(k * 2 ^ D + i) div 2 ^ D = k" using assms(2) by simp
  moreover have "(k' * 2 ^ D + i') div 2 ^ D = k'" using assms(3) by simp
  ultimately have "k = k'" using e by simp
  with e show ?thesis by simp
qed

lemma find_parent'_Some: "find_parent' D m bid = Some k \<Longrightarrow> m k \<noteq> None"
  by (rule find_parent'.raw_induct[where P = "\<lambda>D m bid k. m k \<noteq> None"])
     (auto split: option.splits)

lemma children_present_upd:
  assumes "children_present D m" and "m kb = Some b"
    and "br_id b' = br_id b" and "br_leaf b' = br_leaf b"
  shows "children_present D (m(kb \<mapsto> b'))"
  using assms unfolding children_present_def by auto

lemma emplace_keeps:
  "m k \<noteq> None \<Longrightarrow> fold (\<lambda>i m. emplace m (push D pid i)) is m k = m k"
  by (induction "is" arbitrary: m) (auto simp: emplace_def)

lemma emplace_new:
  "fold (\<lambda>i m. emplace m (push D pid i)) is m k = Some b \<Longrightarrow> m k = None \<Longrightarrow> b = new_branch k"
proof (induction "is" arbitrary: m)
  case Nil
  then show ?case by simp
next
  case (Cons i "is")
  show ?case
  proof (cases "emplace m (push D pid i) k")
    case None
    with Cons show ?thesis by simp
  next
    case (Some b')
    with Cons.prems(2) have "b' = new_branch k" by (auto simp: emplace_def split: if_splits)
    moreover have "fold (\<lambda>i m. emplace m (push D pid i)) is (emplace m (push D pid i)) k = Some b'"
      using emplace_keeps[of "emplace m (push D pid i)" k D pid "is"] Some by simp
    ultimately show ?thesis using Cons.prems(1) by simp
  qed
qed

lemma emplace_present:
  "i \<in> set is \<Longrightarrow> fold (\<lambda>i m. emplace m (push D pid i)) is m (push D pid i) \<noteq> None"
proof (induction "is" arbitrary: m)
  case Nil
  then show ?case by simp
next
  case (Cons j "is")
  show ?case
  proof (cases "i = j")
    case True
    have "emplace m (push D pid j) (push D pid j) \<noteq> None" by (simp add: emplace_def)
    then show ?thesis using emplace_keeps[of "emplace m (push D pid j)" "push D pid j" D pid "is"] True
      by simp
  next
    case False
    with Cons show ?thesis by simp
  qed
qed

lemma new_branch_fields [simp]:
  "br_id (new_branch k) = k" "br_leaf (new_branch k)"
  by (simp_all add: new_branch_def)

lemma children_present_emplace:
  assumes "children_present D m"
  shows "children_present D (fold (\<lambda>i m. emplace m (push D pid i)) is m)"
  unfolding children_present_def
proof (intro allI impI)
  fix k b
  let ?m1 = "fold (\<lambda>i m. emplace m (push D pid i)) is m"
  assume k: "?m1 k = Some b"
  show "br_id b = k \<and> (\<not> br_leaf b \<longrightarrow> (\<forall>i<2 ^ D. ?m1 (push D k i) \<noteq> None))"
  proof (cases "m k")
    case None
    with emplace_new[OF k] have "b = new_branch k" by simp
    then show ?thesis by simp
  next
    case (Some b0)
    with emplace_keeps[of m k D pid "is"] k have mb: "m k = Some b" by simp
    with assms have id: "br_id b = k"
      and ch: "\<not> br_leaf b \<longrightarrow> (\<forall>i<2 ^ D. m (push D k i) \<noteq> None)"
      unfolding children_present_def by auto
    have "\<And>j. m j \<noteq> None \<Longrightarrow> ?m1 j \<noteq> None"
      using emplace_keeps[of m _ D pid "is"] by simp
    with id ch show ?thesis by blast
  qed
qed


lemma children_present_upd_children:
  assumes "children_present D m" and "m kb = Some b"
    and "br_id b' = br_id b" and "\<forall>i<2 ^ D. m (push D kb i) \<noteq> None"
  shows "children_present D (m(kb \<mapsto> b'))"
  using assms unfolding children_present_def by auto

lemma branch_insert_fields [simp]:
  "br_id (branch_insert L b e) = br_id b" "br_leaf (branch_insert L b e) = br_leaf b"
  by (simp_all add: branch_insert_def Let_def)

lemma insert_refine_inv:
  "(\<forall>t ent d t'. children_present D (tree_branch_map t) \<longrightarrow>
       insert_at n D L t ent d = Inr t' \<longrightarrow>
       children_present D (tree_branch_map t') \<and>
       (\<forall>k. tree_branch_map t k \<noteq> None \<longrightarrow> tree_branch_map t' k \<noteq> None)) \<and>
   (\<forall>t kb t'. children_present D (tree_branch_map t) \<longrightarrow>
       refine' n D L t kb = Inr t' \<longrightarrow>
       children_present D (tree_branch_map t') \<and>
       (\<forall>k. tree_branch_map t k \<noteq> None \<longrightarrow> tree_branch_map t' k \<noteq> None))"
proof (induction n)
  case 0
  show ?case by simp
next
  case (Suc n)
  note IHi = Suc.IH[THEN conjunct1, rule_format]
  note IHr = Suc.IH[THEN conjunct2, rule_format]
  have ins: "children_present D (tree_branch_map t') \<and>
       (\<forall>k. tree_branch_map t k \<noteq> None \<longrightarrow> tree_branch_map t' k \<noteq> None)"
    if cp: "children_present D (tree_branch_map t)"
      and run: "insert_at (Suc n) D L t ent d = Inr t'" for t ent d t'
  proof -
    let ?m = "tree_branch_map t"
    from run obtain kb b where
      kb: "find_parent D ?m (to_branch_id D (tree_range t) (ent_coordinates ent) d) d = Some kb"
      and b: "?m kb = Some b"
      by (auto simp: Let_def split: option.splits)
    let ?b' = "branch_insert L b (ent\<lparr>ent_branch_id := br_id b\<rparr>)"
    let ?t1 = "t\<lparr>tree_branch_map := ?m(kb \<mapsto> ?b')\<rparr>"
    have cp1: "children_present D (tree_branch_map ?t1)"
      using children_present_upd[OF cp b, of ?b'] by simp
    have dom1: "\<forall>k. ?m k \<noteq> None \<longrightarrow> tree_branch_map ?t1 k \<noteq> None" by simp
    from run kb b have r: "(case br_action ?b' of
                   action_none \<Rightarrow> Inr ?t1
                 | action_refine \<Rightarrow> refine' n D L ?t1 kb
                 | action_coarsen \<Rightarrow> Inl AssertionFailed) = Inr t'"
      by (simp add: Let_def)
    show ?thesis
    proof (cases "br_action ?b'")
      case action_none
      with r have "t' = ?t1" by simp
      with cp1 dom1 show ?thesis by simp
    next
      case action_refine
      with r have "refine' n D L ?t1 kb = Inr t'" by simp
      from IHr[OF cp1 this] dom1 show ?thesis by blast
    next
      case action_coarsen
      with r show ?thesis by simp
    qed
  qed
  have ref: "children_present D (tree_branch_map t') \<and>
       (\<forall>k. tree_branch_map t k \<noteq> None \<longrightarrow> tree_branch_map t' k \<noteq> None)"
    if cp: "children_present D (tree_branch_map t)"
      and run: "refine' (Suc n) D L t kb = Inr t'" for t kb t'
  proof -
    let ?m = "tree_branch_map t"
    from run obtain b where b: "?m kb = Some b" by (auto split: option.splits)
    from cp b have pid: "br_id b = kb" unfolding children_present_def by blast
    let ?m1 = "fold (\<lambda>i m. emplace m (push D kb i)) [0..<2 ^ D] ?m"
    let ?t1 = "t\<lparr>tree_branch_map := ?m1,
                  tree_max_depth := max (tree_max_depth t) (key_depth D kb + 1)\<rparr>"
    from run b pid obtain t2 b2 where
      loop: "efold (\<lambda>ent t. insert_at n D L t ent (key_depth D kb + 1)) (br_ents b) ?t1 = Inr t2"
      and b2: "tree_branch_map t2 kb = Some b2"
      and t': "t' = t2\<lparr>tree_branch_map := (tree_branch_map t2)
                         (kb \<mapsto> b2\<lparr>br_leaf := False, br_ents := [], br_action := action_none\<rparr>)\<rparr>"
      by (auto simp: Let_def split: sum.splits option.splits)
    have cp1: "children_present D ?m1" by (rule children_present_emplace[OF cp])
    have dom1: "\<And>k. ?m k \<noteq> None \<Longrightarrow> ?m1 k \<noteq> None"
      using emplace_keeps[of ?m _ D kb "[0..<2 ^ D]"] by simp
    have ch1: "\<And>i. i < 2 ^ D \<Longrightarrow> ?m1 (push D kb i) \<noteq> None"
      using emplace_present[of _ "[0..<2 ^ D]" D kb ?m] by simp
    let ?P = "\<lambda>u. children_present D (tree_branch_map u) \<and>
                 (\<forall>k. ?m1 k \<noteq> None \<longrightarrow> tree_branch_map u k \<noteq> None)"
    have P2: "?P t2"
    proof (rule efold_invariant[OF loop, where P = ?P])
      show "?P ?t1" using cp1 by simp
    next
      fix x a c
      assume "?P a" and "insert_at n D L a x (key_depth D kb + 1) = Inr c"
      with IHi[of a x "key_depth D kb + 1" c] show "?P c" by blast
    qed
    then have cp2: "children_present D (tree_branch_map t2)"
      and dom2: "\<And>k. ?m1 k \<noteq> None \<Longrightarrow> tree_branch_map t2 k \<noteq> None" by blast+
    have "children_present D (tree_branch_map t')"
      unfolding t' using children_present_upd_children[OF cp2 b2] ch1 dom2 by simp
    moreover have "\<forall>k. ?m k \<noteq> None \<longrightarrow> tree_branch_map t' k \<noteq> None"
      unfolding t' using dom1 dom2 by simp
    ultimately show ?thesis by blast
  qed
  show ?case using ins ref by blast
qed


lemma children_present_except_empty:
  "children_present_except {} D m = children_present D m"
  by (simp add: children_present_except_def children_present_def)

lemma children_present_except_mono:
  "children_present_except X D m \<Longrightarrow> X \<subseteq> Y \<Longrightarrow> children_present_except Y D m"
  unfolding children_present_except_def by blast

lemma children_present_except_upd:
  assumes "children_present_except X D m" and "m kb = Some b"
    and "br_id b' = br_id b" and "br_leaf b' = br_leaf b"
  shows "children_present_except X D (m(kb \<mapsto> b'))"
  using assms unfolding children_present_except_def by auto

lemma fold_branch_insert_fields [simp]:
  "br_id (fold (\<lambda>ent pb. branch_insert L pb (f ent pb)) es pb) = br_id pb"
  "br_leaf (fold (\<lambda>ent pb. branch_insert L pb (f ent pb)) es pb) = br_leaf pb"
  by (induction es arbitrary: pb) simp_all

lemma children_present_except_erase:
  assumes cpe: "children_present_except (insert kc (insert kb X)) D m"
    and kc: "kc = push D kb i" and i: "i < 2 ^ D"
  shows "children_present_except (insert kb X) D (m(kc := None))"
  unfolding children_present_except_def
proof (intro allI impI)
  fix k b
  assume a: "(m(kc := None)) k = Some b"
  then have kne: "k \<noteq> kc" and mk: "m k = Some b" by (auto split: if_splits)
  from cpe mk have id: "br_id b = k" unfolding children_present_except_def by blast
  have "\<forall>j<2 ^ D. (m(kc := None)) (push D k j) \<noteq> None"
    if nl: "\<not> br_leaf b \<and> k \<notin> insert kb X"
  proof (intro allI impI)
    fix j assume j: "j < (2::nat) ^ D"
    from nl kne have "k \<notin> insert kc (insert kb X)" by simp
    with cpe mk nl j have p: "m (push D k j) \<noteq> None"
      unfolding children_present_except_def by blast
    have "push D k j \<noteq> kc"
    proof
      assume "push D k j = kc"
      with kc push_inj[of D k j kb i] j i have "k = kb" by simp
      with nl show False by simp
    qed
    with p show "(m(kc := None)) (push D k j) \<noteq> None" by simp
  qed
  with id show "br_id b = k \<and>
      (\<not> br_leaf b \<and> k \<notin> insert kb X \<longrightarrow> (\<forall>i<2 ^ D. (m(kc := None)) (push D k i) \<noteq> None))"
    by blast
qed

lemma coarsen_rec_inv:
  assumes "children_present_except X D m"
    and "coarsen_rec n D L m p b = Inr m'"
  shows "children_present_except (X \<union> set_option b) D m'"
  using assms
proof (induction n arbitrary: X m b m')
  case 0
  then show ?case by simp
next
  case (Suc n)
  from Suc.prems(2) obtain kb bb where b: "b = Some kb" and bb: "m kb = Some bb"
    by (auto split: option.splits)
  from Suc.prems(1) bb have id: "br_id bb = kb" unfolding children_present_except_def by blast
  have start: "children_present_except (insert kb X) D m"
    by (rule children_present_except_mono[OF Suc.prems(1)]) auto
  show ?case
  proof (cases "br_leaf bb")
    case True
    with Suc.prems(2) b bb have "m' = m" by simp
    with start b show ?thesis by simp
  next
    case False
    let ?F = "\<lambda>i m.
               let ci = child D m bb i in
               (case ci of None \<Rightarrow> Inl NullPointer | Some kc \<Rightarrow>
                (case m kc of None \<Rightarrow> Inl NullPointer | Some cb \<Rightarrow>
                 (case m p of None \<Rightarrow> Inl NullPointer | Some pb \<Rightarrow>
                    let m1 = m(p \<mapsto> fold (\<lambda>ent pb.
                                 branch_insert L pb (ent\<lparr>ent_branch_id := br_id pb\<rparr>))
                               (br_ents cb) pb)
                    in (case coarsen_rec n D L m1 p ci of
                          Inl e \<Rightarrow> Inl e
                        | Inr m2 \<Rightarrow>
                           (case m2 kc of None \<Rightarrow> Inl NullPointer
                            | Some cb2 \<Rightarrow> Inr (m2(br_id cb2 := None)))))))"
    from Suc.prems(2) b bb False have loop: "efold ?F [0..<2 ^ D] m = Inr m'" by simp
    have "children_present_except (insert kb X) D m'"
    proof (rule efold_invariant[OF loop, where P = "children_present_except (insert kb X) D"])
      show "children_present_except (insert kb X) D m" by (rule start)
    next
      fix i ma mc
      assume i: "i \<in> set [0..<2 ^ D]" and Q: "children_present_except (insert kb X) D ma"
        and step: "?F i ma = Inr mc"
      from i have ilt: "i < 2 ^ D" by simp
      from step obtain kc cb pb m2 cb2 where
        ci: "child D ma bb i = Some kc" and cb: "ma kc = Some cb" and pb: "ma p = Some pb"
        and rec: "coarsen_rec n D L (ma(p \<mapsto> fold (\<lambda>ent pb.
                                 branch_insert L pb (ent\<lparr>ent_branch_id := br_id pb\<rparr>))
                               (br_ents cb) pb)) p (Some kc) = Inr m2"
        and cb2: "m2 kc = Some cb2" and mc: "mc = m2(br_id cb2 := None)"
        by (auto simp: Let_def split: option.splits sum.splits)
      from ci id have kc: "kc = push D kb i" by (auto simp: child_def Let_def split: if_splits)
      have Q1: "children_present_except (insert kb X) D (ma(p \<mapsto> fold (\<lambda>ent pb.
                                 branch_insert L pb (ent\<lparr>ent_branch_id := br_id pb\<rparr>))
                               (br_ents cb) pb))"
        by (rule children_present_except_upd[OF Q pb]) simp_all
      from Suc.IH[OF Q1 rec] have Q2: "children_present_except (insert kc (insert kb X)) D m2"
        by (simp add: insert_commute)
      from Q2 cb2 have "br_id cb2 = kc" unfolding children_present_except_def by blast
      with mc have mc': "mc = m2(kc := None)" by simp
      show "children_present_except (insert kb X) D mc"
        unfolding mc' by (rule children_present_except_erase[OF Q2 kc ilt])
    qed
    with b show ?thesis by simp
  qed
qed

lemma coarsen'_inv:
  assumes cp: "children_present D (tree_branch_map t)"
    and run: "coarsen' n D L t p = Inr t'"
  shows "children_present D (tree_branch_map t')"
proof -
  from run obtain m pb where
    rec: "coarsen_rec n D L (tree_branch_map t) p (Some p) = Inr m"
    and pb: "m p = Some pb"
    and t': "t' = t\<lparr>tree_branch_map := m(p \<mapsto> pb\<lparr>br_leaf := True, br_action := action_none\<rparr>)\<rparr>"
    by (auto simp: coarsen'_def split: sum.splits option.splits)
  from cp have "children_present_except {} D (tree_branch_map t)"
    by (simp add: children_present_except_empty)
  from coarsen_rec_inv[OF this rec] have e: "children_present_except {p} D m" by simp
  have "children_present D (m(p \<mapsto> pb\<lparr>br_leaf := True, br_action := action_none\<rparr>))"
    using e pb unfolding children_present_except_def children_present_def by auto
  then show ?thesis by (simp add: t')
qed

lemma children_present_initial: "children_present D (tree_branch_map (tree_topology start end'))"
  by (simp add: tree_topology_def children_present_def emplace_def root_id_def new_branch_def)

lemma reachable_children_present:
  "reachable D L t \<Longrightarrow> children_present D (tree_branch_map t)"
proof (induction rule: reachable.induct)
  case (initial start end')
  show ?case by (rule children_present_initial)
next
  case (by_insert t n ent t')
  from insert_refine_inv[of D n L, THEN conjunct1, rule_format, of t ent "tree_max_depth t" t']
    by_insert.IH by_insert.hyps(2)
  show ?case by (simp add: tree_insert_def)
next
  case (by_refine t kb n t')
  from insert_refine_inv[of D n L, THEN conjunct2, rule_format, of t kb t']
    by_refine.IH by_refine.hyps(3)
  show ?case by simp
next
  case (by_coarsen t p n t')
  from coarsen'_inv[OF by_coarsen.IH by_coarsen.hyps(3)]
  show ?case .
qed

lemma Inr_projr: "\<not> isl x \<Longrightarrow> x = Inr (projr x)"
  by (cases x) simp_all

lemma c9_reachable: "reachable 1 1 c9_t2 \<and> reachable 1 1 c9_t4"
proof -
  have r0: "reachable 1 1 (tree_topology [0] [1])" by (rule reachable.initial)
  have "\<not> isl (tree_insert 5 1 1 (tree_topology [0] [1]) (ex_entity 0 (1 / 4) 1 LOCAL 0))"
    by code_simp
  then have "tree_insert 5 1 1 (tree_topology [0] [1]) (ex_entity 0 (1 / 4) 1 LOCAL 0) = Inr c9_t1"
    unfolding c9_t1_def by (rule Inr_projr)
  then have r1: "reachable 1 1 c9_t1" by (rule reachable.by_insert[OF r0])
  have "\<not> isl (tree_insert 5 1 1 c9_t1 (ex_entity 1 (3 / 4) 2 LOCAL 0))"
    by code_simp
  then have "tree_insert 5 1 1 c9_t1 (ex_entity 1 (3 / 4) 2 LOCAL 0) = Inr c9_t2"
    unfolding c9_t2_def by (rule Inr_projr)
  then have r2: "reachable 1 1 c9_t2" by (rule reachable.by_insert[OF r1])
  have "\<not> isl (tree_insert 5 1 1 c9_t2 (ex_entity 2 (7 / 8) 2 LOCAL 0))"
    by code_simp
  then have "tree_insert 5 1 1 c9_t2 (ex_entity 2 (7 / 8) 2 LOCAL 0) = Inr c9_t3"
    unfolding c9_t3_def by (rule Inr_projr)
  then have r3: "reachable 1 1 c9_t3" by (rule reachable.by_insert[OF r2])
  have p3: "tree_branch_map c9_t3 3 \<noteq> None" by code_simp
  have "\<not> isl (coarsen' 5 1 1 c9_t3 3)"
    by code_simp
  then have "coarsen' 5 1 1 c9_t3 3 = Inr c9_t4"
    unfolding c9_t4_def by (rule Inr_projr)
  then have r4: "reachable 1 1 c9_t4" by (rule reachable.by_coarsen[OF r3 p3])
  show ?thesis using r2 r4 by simp
qed

text \<open>
  Claim C9.  In every tree that the constructor, \<open>insert\<close>, \<open>refine_\<close> and \<open>coarsen_\<close> produce,
  every branch of the map that is not a leaf is stored under its own id and has all its
  \<open>2\<^sup>D\<close> child keys in the map, so that \<open>child\<close> does not return \<open>nullptr\<close> for it.
\<close>

theorem non_leaf_branch_has_all_children:
  assumes "reachable D max_leaf t" and "tree_branch_map t k = Some b" and "\<not> br_leaf b"
    and "i < 2 ^ D"
  shows "br_id b = k \<and> tree_branch_map t (push D k i) \<noteq> None \<and>
         child D (tree_branch_map t) b i \<noteq> None"
proof -
  from reachable_children_present[OF assms(1)] assms(2,3,4)
  have id: "br_id b = k" and p: "tree_branch_map t (push D k i) \<noteq> None"
    unfolding children_present_def by blast+
  then show ?thesis by (simp add: child_def Let_def)
qed

text \<open>
  \<open>non_leaf_branch_has_all_children\<close> on the root of two trees built by the operations:
  after two insertions that refine the root, and after a further insertion and the
  coarsening of the branch \<open>3\<close>.
\<close>

theorem non_leaf_branch_has_all_children_witness:
  "reachable 1 1 c9_t2 \<and> reachable 1 1 c9_t4 \<and>
   tree_branch_map c9_t2 (push 1 1 0) \<noteq> None \<and> tree_branch_map c9_t2 (push 1 1 1) \<noteq> None \<and>
   tree_branch_map c9_t4 (push 1 1 0) \<noteq> None \<and> tree_branch_map c9_t4 (push 1 1 1) \<noteq> None \<and>
   tree_branch_map c9_t4 (push 1 3 0) = None"
proof -
  have a: "case tree_branch_map c9_t2 1 of Some b \<Rightarrow> \<not> br_leaf b | None \<Rightarrow> False"
    by code_simp
  have b: "case tree_branch_map c9_t4 1 of Some b \<Rightarrow> \<not> br_leaf b | None \<Rightarrow> False"
    by code_simp
  have c: "tree_branch_map c9_t4 (push 1 3 0) = None" by code_simp
  from a obtain b2 where b2: "tree_branch_map c9_t2 1 = Some b2" "\<not> br_leaf b2"
    by (auto split: option.splits)
  from b obtain b4 where b4: "tree_branch_map c9_t4 1 = Some b4" "\<not> br_leaf b4"
    by (auto split: option.splits)
  have r: "reachable 1 1 c9_t2" "reachable 1 1 c9_t4" using c9_reachable by simp_all
  from non_leaf_branch_has_all_children[OF r(1) b2, of 0]
    non_leaf_branch_has_all_children[OF r(1) b2, of 1]
    non_leaf_branch_has_all_children[OF r(2) b4, of 0]
    non_leaf_branch_has_all_children[OF r(2) b4, of 1] r c
  show ?thesis by simp
qed

section \<open>Search in a radius\<close>

lemmas c3_unf = update_branches_def root_def root_id_def c3_tree0_def c3_e0_def c3_e1_def ex_branch_def ex_entity_def
      numeral_2_eq_2 child_def push_def upt2 Let_def update_branches_leaf_def
      update_branches_node_def update_branches_init_def update_branches_save_def
      for_dims_def std_max_def std_min_def DBL_MAX_def

lemma c3_tree_fields:
  "tree_branch_map c3_tree (Suc 0) = Some ((ex_branch 1 False [])\<lparr>br_mass := 2, br_coordinates := [23 / 50],
      br_bmin := [2 / 5], br_bmax := [13 / 25], br_sub_entities := 2\<rparr>)"
  "tree_branch_map c3_tree 2 = Some ((ex_branch 2 True [c3_e0])\<lparr>br_mass := 1, br_coordinates := [2 / 5],
      br_bmin := [2 / 5], br_bmax := [2 / 5], br_sub_entities := 1\<rparr>)"
  "tree_branch_map c3_tree 3 = Some ((ex_branch 3 True [c3_e1])\<lparr>br_mass := 1, br_coordinates := [13 / 25],
      br_bmin := [13 / 25], br_bmax := [13 / 25], br_sub_entities := 1\<rparr>)"
  "tree_branch_map c3_tree (Suc (Suc 0)) = Some ((ex_branch 2 True [c3_e0])\<lparr>br_mass := 1, br_coordinates := [2 / 5],
      br_bmin := [2 / 5], br_bmax := [2 / 5], br_sub_entities := 1\<rparr>)"
  "tree_branch_map c3_tree (Suc (Suc (Suc 0))) = Some ((ex_branch 3 True [c3_e1])\<lparr>br_mass := 1, br_coordinates := [13 / 25],
      br_bmin := [13 / 25], br_bmax := [13 / 25], br_sub_entities := 1\<rparr>)"
  "tree_range c3_tree = ([0], [1])" "tree_max_depth c3_tree = Suc 0"
  unfolding c3_tree_def
  by (simp_all add: c3_unf numeral_3_eq_3)

lemma distance_1d: "distance [a] [b] = \<bar>a - b\<bar>"
  by (simp add: distance_def)

section \<open>The distributed sort: what it establishes\<close>

lemma sorted_sort_by_key: "sorted (map fst (sort_by_key xs))"
  by (simp add: sort_by_key_def)

lemma mset_sort_by_key: "mset (sort_by_key xs) = mset xs"
  by (simp add: sort_by_key_def)

lemma concat_slices:
  "concat (map (\<lambda>j. take (cnt ! j) (drop (sum_list (take j cnt)) xs)) [0..<length cnt])
     = take (sum_list cnt) xs"
proof (induction cnt rule: rev_induct)
  case Nil
  then show ?case by simp
next
  case (snoc c cnt)
  let ?F = "\<lambda>j. take ((cnt @ [c]) ! j) (drop (sum_list (take j (cnt @ [c]))) xs)"
  let ?G = "\<lambda>j. take (cnt ! j) (drop (sum_list (take j cnt)) xs)"
  have eq: "map ?F [0..<length cnt] = map ?G [0..<length cnt]"
    by (rule map_cong[OF refl]) (simp add: nth_append)
  have "concat (map ?F [0..<length (cnt @ [c])]) = concat (map ?F [0..<length cnt]) @ ?F (length cnt)"
    by simp
  also have "\<dots> = take (sum_list cnt) xs @ take c (drop (sum_list cnt) xs)"
    unfolding eq snoc.IH by simp
  also have "\<dots> = take (sum_list (cnt @ [c])) xs"
    by (simp add: take_add)
  finally show ?case .
qed

lemma sorted_cut:
  "sorted (s :: nat list) \<Longrightarrow> \<exists>c\<le>length s. \<forall>j<length s. (s ! j \<le> key) = (j < c)"
proof (induction s)
  case Nil
  then show ?case by simp
next
  case (Cons x xs)
  then obtain c where c: "c \<le> length xs" "\<forall>j<length xs. (xs ! j \<le> key) = (j < c)" by auto
  show ?case
  proof (cases "x \<le> key")
    case True
    have "\<forall>j<length (x # xs). ((x # xs) ! j \<le> key) = (j < Suc c)"
      using c True by (auto simp: nth_Cons split: nat.splits)
    then show ?thesis using c(1) by (intro exI[of _ "Suc c"]) simp
  next
    case False
    have "\<forall>j<length (x # xs). ((x # xs) ! j \<le> key) = (j < 0)"
      using Cons.prems False by (auto simp: nth_Cons not_le split: nat.splits dest!: nth_mem)
    then show ?thesis by (intro exI[of _ 0]) simp
  qed
qed

lemma in_bucket_unique:
  assumes "sorted splitters" "length splitters = n - 1" "2 \<le> n"
  shows "\<exists>c<n. \<forall>i<n. in_bucket n splitters i key = (i = c)"
proof -
  obtain c where c: "c \<le> length splitters" "\<forall>j<length splitters. (splitters ! j \<le> key) = (j < c)"
    using sorted_cut[OF assms(1)] by blast
  have "c < n" using c(1) assms by simp
  moreover have "\<forall>i<n. in_bucket n splitters i key = (i = c)"
  proof (intro allI impI)
    fix i assume "i < n"
    have A: "(splitters ! j \<le> key) = (j < c)" if "j < n - 1" for j
      using c(2) assms(2) that by simp
    consider "i = 0" | "i = n - 1" | "0 < i" "i < n - 1" using \<open>i < n\<close> by linarith
    then show "in_bucket n splitters i key = (i = c)"
    proof cases
      case 1
      then show ?thesis using A[of 0] assms(3) c(1) assms(2)
        by (auto simp: in_bucket_def not_less)
    next
      case 2
      then show ?thesis using A[of "n - 2"] assms(3) c(1) assms(2)
        by (auto simp: in_bucket_def not_less)
    next
      case 3
      then show ?thesis using A[of i] A[of "i - 1"]
        by (auto simp: in_bucket_def not_less)
    qed
  qed
  ultimately show ?thesis by blast
qed

lemma sum_bucket_counts:
  assumes "\<forall>x\<in>set xs. \<exists>c<n. \<forall>i<n. P i x = (i = c)"
  shows "sum_list (map (\<lambda>i. length (filter (P i) xs)) [0..<n]) = length xs"
  using assms
proof (induction xs)
  case Nil
  then show ?case by simp
next
  case (Cons x xs)
  then obtain c where c: "c < n" "\<forall>i<n. P i x = (i = c)" by auto
  have "sum_list (map (\<lambda>i. length (filter (P i) (x # xs))) [0..<n])
      = sum_list (map (\<lambda>i. (if i = c then 1 else 0) + length (filter (P i) xs)) [0..<n])"
    by (rule arg_cong[where f = sum_list], rule map_cong[OF refl]) (use c in auto)
  also have "\<dots> = sum_list (map (\<lambda>i. if i = c then 1 else 0) [0..<n])
                   + sum_list (map (\<lambda>i. length (filter (P i) xs)) [0..<n])"
    by (simp add: sum_list_addf)
  also have "sum_list (map (\<lambda>i. if i = c then 1 else 0) [0..<n]) = (1::nat)"
    using c(1) by (simp add: interv_sum_list_conv_sum_set_nat)
  finally show ?case using Cons by simp
qed

lemma sendcount_sum:
  assumes "sorted splitters" "length splitters = n - 1" "2 \<le> n"
  shows "sum_list (sendcount n splitters rb) = length rb"
  unfolding sendcount_def
  by (rule sum_bucket_counts[where P = "\<lambda>i bi. in_bucket n splitters i (fst bi)"])
     (use in_bucket_unique[OF assms] in blast)

lemma slices_concat:
  assumes "sorted splitters" "length splitters = n - 1" "2 \<le> n"
  shows "concat (map (\<lambda>j. let cnt = sendcount n splitters rb; off = sendoffsets cnt
                          in take (cnt ! j) (drop (off ! j) rb)) [0..<n]) = rb"
proof -
  let ?cnt = "sendcount n splitters rb"
  have len: "length ?cnt = n" by (simp add: sendcount_def)
  have "map (\<lambda>j. let cnt = ?cnt; off = sendoffsets cnt in take (cnt ! j) (drop (off ! j) rb)) [0..<n]
      = map (\<lambda>j. take (?cnt ! j) (drop (sum_list (take j ?cnt)) rb)) [0..<length ?cnt]"
    unfolding len
    by (rule map_cong[OF refl]) (simp add: Let_def sendoffsets_def len del: upt_Suc)
  then show ?thesis
    using concat_slices[of ?cnt rb] sendcount_sum[OF assms, of rb] by simp
qed

lemma mset_concat_map_append:
  "mset (concat (map (\<lambda>j. f j @ g j) js)) = mset (concat (map f js)) + mset (concat (map g js))"
  by (induction js) simp_all

lemma mset_alltoallv:
  assumes "sorted splitters" "length splitters = n - 1" "2 \<le> n"
  shows "mset (concat (alltoallv n splitters rbs)) = mset (concat rbs)"
proof (induction rbs)
  case Nil
  have "concat (map (\<lambda>j. []) [0..<n]) = ([] :: (nat \<times> 'a) list)" by (induction n) simp_all
  then show ?case by (simp add: alltoallv_def)
next
  case (Cons rb rbs)
  show ?case
    using Cons.IH slices_concat[OF assms, of rb]
    by (simp add: alltoallv_def mset_concat_map_append)
qed

lemma mset_concat_sort_by_key: "mset (concat (map sort_by_key xss)) = mset (concat xss)"
  by (induction xss) (simp_all add: mset_sort_by_key)

lemma efold_collect:
  "efold (\<lambda>i acc. if Q i then Inr (acc @ [g i]) else Inl e) xs acc = Inr r
     \<Longrightarrow> r = acc @ map g xs \<and> (\<forall>i\<in>set xs. Q i)"
proof (induction xs arbitrary: acc)
  case Nil
  then show ?case by simp
next
  case (Cons a xs)
  from Cons.prems have q: "Q a"
    and r: "efold (\<lambda>i acc. if Q i then Inr (acc @ [g i]) else Inl e) xs (acc @ [g a]) = Inr r"
    by (auto split: if_splits)
  from Cons.IH[OF r] q show ?case by simp
qed

lemma master_splitters_sorted:
  assumes "master_splitters cap dk tot n samples = Inr splitters"
  shows "sorted splitters \<and> length splitters = n - 1"
proof -
  let ?nk = "if tot < cap * n then tot else cap * n"
  define mk where "mk = sort (concat samples @ replicate (?nk - length (concat samples)) dk)"
  define ch where "ch = ?nk div n"
  from assms have "(if ?nk < length (concat samples) then Inl OutOfBounds
        else efold (\<lambda>i acc. if (i + 1) * ch < length mk then Inr (acc @ [mk ! ((i + 1) * ch)])
                      else Inl OutOfBounds) [0..<n - 1] []) = Inr splitters"
    unfolding master_splitters_def Let_def mk_def ch_def .
  then have "efold (\<lambda>i acc. if (i + 1) * ch < length mk then Inr (acc @ [mk ! ((i + 1) * ch)])
                      else Inl OutOfBounds) [0..<n - 1] [] = Inr splitters"
    by (metis sum.distinct(1))
  from efold_collect[OF this]
  have sp: "splitters = map (\<lambda>i. mk ! ((i + 1) * ch)) [0..<n - 1]"
    and inb: "\<forall>i<n - 1. (i + 1) * ch < length mk" by auto
  have "sorted mk" by (simp add: mk_def)
  have "sorted splitters"
    unfolding sp sorted_iff_nth_mono
  proof (intro allI impI)
    fix i j assume "i \<le> j" "j < length (map (\<lambda>i. mk ! ((i + 1) * ch)) [0..<n - 1])"
    then have j: "j < n - 1" and i: "i < n - 1" by simp_all
    have "(i + 1) * ch \<le> (j + 1) * ch" using \<open>i \<le> j\<close> by simp
    then have "mk ! ((i + 1) * ch) \<le> mk ! ((j + 1) * ch)"
      using \<open>sorted mk\<close> inb j by (simp add: sorted_nth_mono)
    then show "map (\<lambda>i. mk ! ((i + 1) * ch)) [0..<n - 1] ! i \<le> map (\<lambda>i. mk ! ((i + 1) * ch)) [0..<n - 1] ! j"
      using i j by simp
  qed
  then show ?thesis by (simp add: sp)
qed

lemma upt2_numeral: "[0..<2] = [0, 1]"
  by (simp add: numeral_2_eq_2)

lemma c4_two_ranks_run:
  "mpi_sort_unbalanced 32768 0 4 c4_two_ranks =
     Inr [[(1, c4_body 7 (1 / 4)), (2, c4_body 5 (1 / 2))],
          [(3, c4_body 9 (3 / 4)), (3, c4_body 4 (3 / 4))]]"
  by (simp add: mpi_sort_unbalanced_def c4_two_ranks_def sort_by_key_def keys_sample_def
      master_splitters_def alltoallv_def sendcount_def sendoffsets_def in_bucket_def Let_def
      upt2_numeral numeral_2_eq_2[symmetric])

text \<open>
  Claim C4.  When \<open>mpi_sort_unbalanced\<close> returns, every rank holds a sequence that is sorted
  non-decreasingly by key, there are as many sequences as ranks, and the bodies of all
  ranks together are the bodies that went in, each as often as it went in: nothing is
  dropped and no pair of a key and an id is checked or removed.  Nothing is said about
  the order of bodies with equal keys: both sorts compare keys only.
\<close>

theorem mpi_sort_unbalanced_sorts_by_key_only:
  assumes "mpi_sort_unbalanced cap default_key totalnbodies rbs = Inr rbs'"
  shows "length rbs' = length rbs \<and> (\<forall>r<length rbs'. sorted (map fst (rbs' ! r))) \<and>
         mset (concat rbs') = mset (concat rbs)"
proof (cases "length rbs = 1")
  case True
  with assms have "rbs' = map sort_by_key rbs"
    by (simp add: mpi_sort_unbalanced_def Let_def)
  then show ?thesis
    by (simp add: sorted_sort_by_key mset_concat_sort_by_key)
next
  case False
  let ?n = "length rbs"
  from assms False obtain samples splitters where
    sp: "master_splitters cap default_key totalnbodies ?n samples = Inr splitters"
    and r: "rbs' = map sort_by_key (alltoallv ?n splitters (map sort_by_key rbs))"
    by (auto simp: mpi_sort_unbalanced_def Let_def split: sum.splits)
  from master_splitters_sorted[OF sp] have s: "sorted splitters" "length splitters = ?n - 1"
    by simp_all
  have len: "length rbs' = ?n" by (simp add: r alltoallv_def)
  have srt: "\<forall>r<length rbs'. sorted (map fst (rbs' ! r))"
    using len by (simp add: r sorted_sort_by_key alltoallv_def)
  have "mset (concat rbs') = mset (concat rbs)"
  proof (cases "?n = 0")
    case True
    then show ?thesis by (simp add: r alltoallv_def)
  next
    case n0: False
    with False have "2 \<le> ?n" by linarith
    from mset_alltoallv[OF s this, of "map sort_by_key rbs"]
    show ?thesis by (simp add: r mset_concat_sort_by_key)
  qed
  with len srt show ?thesis by simp
qed

text \<open>
  The order by id among equal keys does not hold.  On one rank, two bodies with key \<open>5\<close>
  and the ids \<open>2\<close>, \<open>1\<close> come back in that order.  On two ranks, the bodies with key \<open>3\<close>
  and the ids \<open>9\<close> (from rank 0) and \<open>4\<close> (from rank 1) end on rank 1 in the order
  \<open>9\<close>, \<open>4\<close>.
\<close>

theorem mpi_sort_unbalanced_keeps_arrival_order:
  "mpi_sort_unbalanced 32768 0 2 c4_one_rank = Inr c4_one_rank \<and>
   \<not> sorted_by_key_id ent_id (c4_one_rank ! 0) \<and>
   mpi_sort_unbalanced 32768 0 4 c4_two_ranks =
     Inr [[(1, c4_body 7 (1 / 4)), (2, c4_body 5 (1 / 2))],
          [(3, c4_body 9 (3 / 4)), (3, c4_body 4 (3 / 4))]] \<and>
   \<not> sorted_by_key_id ent_id [(3, c4_body 9 (3 / 4)), (3, c4_body 4 (3 / 4))]"
proof (intro conjI)
  show "mpi_sort_unbalanced 32768 0 2 c4_one_rank = Inr c4_one_rank"
    by (simp add: mpi_sort_unbalanced_def c4_one_rank_def sort_by_key_def)
  show "\<not> sorted_by_key_id ent_id (c4_one_rank ! 0)"
    by (simp add: c4_one_rank_def sorted_by_key_id_def c4_body_def ex_entity_def)
  show "mpi_sort_unbalanced 32768 0 4 c4_two_ranks =
     Inr [[(1, c4_body 7 (1 / 4)), (2, c4_body 5 (1 / 2))],
          [(3, c4_body 9 (3 / 4)), (3, c4_body 4 (3 / 4))]]"
    by (rule c4_two_ranks_run)
  show "\<not> sorted_by_key_id ent_id [(3, c4_body 9 (3 / 4)), (3, c4_body 4 (3 / 4))]"
    by (simp add: sorted_by_key_id_def c4_body_def ex_entity_def)
qed

theorem mpi_sort_unbalanced_sorts_by_key_only_witness:
  "\<exists>rbs'. mpi_sort_unbalanced 32768 0 4 c4_two_ranks = Inr rbs' \<and>
     length rbs' = length c4_two_ranks \<and>
     sorted (map fst (rbs' ! 0)) \<and> sorted (map fst (rbs' ! 1)) \<and>
     mset (concat rbs') = mset (concat c4_two_ranks)"
proof -
  define r where "r = [[(1::nat, c4_body 7 (1 / 4)), (2, c4_body 5 (1 / 2))],
            [(3, c4_body 9 (3 / 4)), (3, c4_body 4 (3 / 4))]]"
  have run: "mpi_sort_unbalanced 32768 0 4 c4_two_ranks = Inr r"
    unfolding r_def by (rule c4_two_ranks_run)
  from mpi_sort_unbalanced_sorts_by_key_only[OF run]
  have a: "length r = length c4_two_ranks"
    and b: "\<forall>i<length r. sorted (map fst (r ! i))"
    and c: "mset (concat r) = mset (concat c4_two_ranks)" by simp_all
  have "length r = 2" by (simp add: r_def)
  with b have "sorted (map fst (r ! 0))" "sorted (map fst (r ! 1))" by simp_all
  with a c run show ?thesis by (intro exI[of _ r]) simp
qed

section \<open>Applying a function: which entities it is applied to\<close>


lemma walk_Nil: "walk stop keep visit D n m [] acc = Inr acc"
  by (cases n) simp_all

lemma efold_append:
  "efold f (xs @ ys) a = (case efold f xs a of Inl e \<Rightarrow> Inl e | Inr a' \<Rightarrow> efold f ys a')"
  by (induction xs arbitrary: a) (simp_all split: sum.splits)

lemma push_children:
  assumes "\<forall>i\<in>set xs. m (push D (br_id b) i) \<noteq> None"
  shows "efold (\<lambda>i stk.
            (case child D m b i of None \<Rightarrow> Inl NullPointer
             | Some kn \<Rightarrow>
                (case m kn of None \<Rightarrow> Inl NullPointer
                 | Some next \<Rightarrow> Inr (if keep next then kn # stk else stk))))
          xs rest
       = Inr (filter (\<lambda>c. case m c of None \<Rightarrow> False | Some cb \<Rightarrow> keep cb)
                (map (push D (br_id b)) (rev xs)) @ rest)"
  using assms
proof (induction xs arbitrary: rest)
  case Nil
  then show ?case by simp
next
  case (Cons i xs)
  from Cons.prems obtain cb where cb: "m (push D (br_id b) i) = Some cb" by auto
  from Cons.prems have "\<forall>i\<in>set xs. m (push D (br_id b) i) \<noteq> None" by simp
  from Cons.IH[OF this] show ?case
    by (simp add: child_def cb)
qed

lemma walk_list:
  assumes step: "\<And>k f rest acc. k \<in> set cs \<Longrightarrow>
      walk stop keep visit D (st k + f) m (k # rest) acc =
        (case efold (\<lambda>(k, b). visit k b) (cl k) acc of Inl e \<Rightarrow> Inl e
         | Inr acc' \<Rightarrow> walk stop keep visit D f m rest acc')"
  shows "walk stop keep visit D (sum_list (map st cs) + f) m (cs @ rest) acc =
        (case efold (\<lambda>(k, b). visit k b) (concat (map cl cs)) acc of Inl e \<Rightarrow> Inl e
         | Inr acc' \<Rightarrow> walk stop keep visit D f m rest acc')"
  using step
proof (induction cs arbitrary: acc)
  case Nil
  then show ?case by simp
next
  case (Cons c cs)
  have "walk stop keep visit D (sum_list (map st (c # cs)) + f) m ((c # cs) @ rest) acc
      = walk stop keep visit D (st c + (sum_list (map st cs) + f)) m (c # (cs @ rest)) acc"
    by (simp add: add.assoc)
  also have "\<dots> = (case efold (\<lambda>(k, b). visit k b) (cl c) acc of Inl e \<Rightarrow> Inl e
         | Inr acc' \<Rightarrow> walk stop keep visit D (sum_list (map st cs) + f) m (cs @ rest) acc')"
    by (rule Cons.prems) simp
  also have "\<dots> = (case efold (\<lambda>(k, b). visit k b) (cl c) acc of Inl e \<Rightarrow> Inl e
         | Inr acc' \<Rightarrow> (case efold (\<lambda>(k, b). visit k b) (concat (map cl cs)) acc' of Inl e \<Rightarrow> Inl e
         | Inr acc'' \<Rightarrow> walk stop keep visit D f m rest acc''))"
    using Cons.IH Cons.prems by (simp split: sum.splits)
  finally show ?case by (simp add: efold_append split: sum.splits)
qed

lemma walk_cells:
  "walkable stop keep D n m k \<Longrightarrow>
     walk stop keep visit D (steps stop keep D n m k + f) m (k # rest) acc =
       (case efold (\<lambda>(k, b). visit k b) (cells stop keep D n m k) acc of Inl e \<Rightarrow> Inl e
        | Inr acc' \<Rightarrow> walk stop keep visit D f m rest acc')"
proof (induction n arbitrary: k f rest acc)
  case 0
  then show ?case by (auto split: option.splits sum.splits)
next
  case (Suc n)
  from Suc.prems obtain b where b: "m k = Some b" "br_id b = k"
    by (auto split: option.splits)
  show ?case
  proof (cases "stop b")
    case True
    then show ?thesis using b by (simp split: sum.splits)
  next
    case False
    with Suc.prems b have ex: "\<forall>i\<in>set [0..<2 ^ D]. m (push D (br_id b) i) \<noteq> None"
      and wk: "list_all (walkable stop keep D n m) (kept_children keep D m k)"
      by (auto simp: list_all_iff)
    have pc: "efold (\<lambda>i stk.
            (case child D m b i of None \<Rightarrow> Inl NullPointer
             | Some kn \<Rightarrow>
                (case m kn of None \<Rightarrow> Inl NullPointer
                 | Some next \<Rightarrow> Inr (if keep next then kn # stk else stk))))
          [0..<2 ^ D] rest = Inr (kept_children keep D m k @ rest)"
      using push_children[OF ex, of keep rest] b(2) by (simp add: kept_children_def)
    have "walk stop keep visit D (steps stop keep D (Suc n) m k + f) m (k # rest) acc
        = walk stop keep visit D
            (sum_list (map (steps stop keep D n m) (kept_children keep D m k)) + f) m
            (kept_children keep D m k @ rest) acc"
      using b False by (simp add: pc)
    also have "\<dots> = (case efold (\<lambda>(k, b). visit k b)
                          (concat (map (cells stop keep D n m) (kept_children keep D m k))) acc of
                        Inl e \<Rightarrow> Inl e
                      | Inr acc' \<Rightarrow> walk stop keep visit D f m rest acc')"
      by (rule walk_list) (use wk Suc.IH in \<open>auto simp: list_all_iff\<close>)
    finally show ?thesis using b False by simp
  qed
qed

lemma walkable_Suc:
  "walkable stop keep D n m k \<Longrightarrow>
     walkable stop keep D (Suc n) m k \<and>
     cells stop keep D (Suc n) m k = cells stop keep D n m k \<and>
     steps stop keep D (Suc n) m k = steps stop keep D n m k"
proof (induction n arbitrary: k)
  case 0
  then show ?case by (auto split: option.splits)
next
  case (Suc n)
  from Suc.prems obtain b where b: "m k = Some b" "br_id b = k"
    by (auto split: option.splits)
  show ?case
  proof (cases "stop b")
    case True
    then show ?thesis using b by simp
  next
    case False
    with Suc.prems b have ex: "list_all (\<lambda>i. m (push D k i) \<noteq> None) [0..<2 ^ D]"
      and wk: "\<forall>c\<in>set (kept_children keep D m k). walkable stop keep D n m c"
      by (auto simp: list_all_iff)
    have w: "\<forall>c\<in>set (kept_children keep D m k). walkable stop keep D (Suc n) m c"
      using wk Suc.IH by blast
    have c: "map (cells stop keep D (Suc n) m) (kept_children keep D m k)
            = map (cells stop keep D n m) (kept_children keep D m k)"
      by (intro map_cong refl) (use wk Suc.IH in blast)
    have s: "map (steps stop keep D (Suc n) m) (kept_children keep D m k)
            = map (steps stop keep D n m) (kept_children keep D m k)"
      by (intro map_cong refl) (use wk Suc.IH in blast)
    have "walkable stop keep D (Suc (Suc n)) m k"
      using b False ex w by (simp add: list_all_iff)
    moreover have "cells stop keep D (Suc (Suc n)) m k = cells stop keep D (Suc n) m k"
      by (simp only: cells.simps b(1) option.case False if_False c)
    moreover have "steps stop keep D (Suc (Suc n)) m k = steps stop keep D (Suc n) m k"
      by (simp only: steps.simps b(1) option.case False if_False s)
    ultimately show ?thesis by blast
  qed
qed

lemma walkable_mono:
  "walkable stop keep D n m k \<Longrightarrow>
     walkable stop keep D (n + j) m k \<and>
     cells stop keep D (n + j) m k = cells stop keep D n m k \<and>
     steps stop keep D (n + j) m k = steps stop keep D n m k"
proof (induction j)
  case 0
  then show ?case by simp
next
  case (Suc j)
  then show ?case using walkable_Suc[of stop keep D "n + j" m k] by simp
qed

lemma sum_list_bound:
  "(\<And>x. x \<in> set xs \<Longrightarrow> f x \<le> (B::nat)) \<Longrightarrow> sum_list (map f xs) \<le> length xs * B"
  by (induction xs) (simp_all add: add_mono)

lemma length_kept_children: "length (kept_children keep D m k) \<le> 2 ^ D"
  unfolding kept_children_def
  by (rule order_trans[OF length_filter_le]) simp

lemma steps_bound: "steps stop keep D n m k \<le> nodes_bound D n"
proof (induction n arbitrary: k)
  case 0
  then show ?case by simp
next
  case (Suc n)
  have "sum_list (map (steps stop keep D n m) (kept_children keep D m k))
      \<le> length (kept_children keep D m k) * nodes_bound D n"
    by (rule sum_list_bound) (rule Suc.IH)
  also have "\<dots> \<le> 2 ^ D * nodes_bound D n"
    by (rule mult_right_mono[OF length_kept_children]) simp
  finally show ?case by (simp split: option.splits)
qed

lemma walk_total:
  assumes "walkable stop keep D n m k" "nodes_bound D n \<le> fuel"
  shows "walk stop keep visit D fuel m [k] acc =
           efold (\<lambda>(k, b). visit k b) (cells stop keep D n m k) acc"
proof -
  from assms(2) steps_bound[of stop keep D n m k]
  obtain f where f: "fuel = steps stop keep D n m k + f"
    using le_Suc_ex order_trans by blast
  show ?thesis unfolding f walk_cells[OF assms(1)]
    by (simp add: walk_Nil split: sum.splits)
qed

lemma covered_Some:
  "covered D n m k \<Longrightarrow> \<exists>b. m k = Some b \<and> br_id b = k \<and>
     (local_sources D n m k \<noteq> [] \<longrightarrow> 0 < br_sub_entities b \<and> 0 < br_mass b)"
  by (cases n) (auto split: option.splits)

lemma kept_children_subset: "set (kept_children keep D m k) \<subseteq> push D k ` {..<2 ^ D}"
  by (auto simp: kept_children_def)

lemma covered_walkable: "covered D n m k \<Longrightarrow> walkable br_leaf keep D n m k"
proof (induction n arbitrary: k)
  case 0
  then show ?case by (auto split: option.splits)
next
  case (Suc n)
  from Suc.prems obtain b where b: "m k = Some b" "br_id b = k"
    by (auto split: option.splits)
  show ?case
  proof (cases "br_leaf b")
    case True
    then show ?thesis using b by simp
  next
    case False
    with Suc.prems b have ch: "\<forall>i<2 ^ D. covered D n m (push D k i)"
      by (auto simp: list_all_iff)
    then have "\<forall>i<2 ^ D. m (push D k i) \<noteq> None"
      using covered_Some by fastforce
    moreover have "\<forall>c\<in>set (kept_children keep D m k). walkable br_leaf keep D n m c"
      using ch Suc.IH kept_children_subset[of keep D m k] by auto
    ultimately show ?thesis using b by (simp add: list_all_iff)
  qed
qed

lemma local_sources_mono:
  "covered D n m k \<Longrightarrow> local_sources D (n + j) m k = local_sources D n m k"
  using walkable_mono[OF covered_walkable, of D n m k "\<lambda>b. True" j]
  by (simp add: local_sources_def)

lemma covered_Suc: "covered D n m k \<Longrightarrow> covered D (Suc n) m k"
proof (induction n arbitrary: k)
  case 0
  from local_sources_mono[OF 0, of 1] 0 show ?case
    by (auto split: option.splits)
next
  case (Suc n)
  from Suc.prems obtain b where b: "m k = Some b" "br_id b = k"
    by (auto split: option.splits)
  have ls: "local_sources D (Suc (Suc n)) m k = local_sources D (Suc n) m k"
    using local_sources_mono[OF Suc.prems, of 1] by simp
  from Suc.prems b have
    c: "local_sources D (Suc n) m k \<noteq> [] \<longrightarrow> 0 < br_sub_entities b \<and> 0 < br_mass b"
    and l: "br_leaf b \<or> list_all (covered D n m) (map (push D k) [0..<2 ^ D])"
    by simp_all
  from l Suc.IH have "br_leaf b \<or> list_all (covered D (Suc n) m) (map (push D k) [0..<2 ^ D])"
    by (auto simp: list_all_iff)
  with b c show ?case
    by (simp only: covered.simps(2)[of D "Suc n"] option.case ls)
qed

lemma covered_mono: "covered D n m k \<Longrightarrow> covered D (n + j) m k"
  by (induction j) (simp_all add: covered_Suc del: covered.simps)

lemma concat_map_concat_map:
  "concat (map f (concat (map g xs))) = concat (map (\<lambda>x. concat (map f (g x))) xs)"
  by (induction xs) simp_all

lemma concat_map_filter:
  assumes "\<And>x. x \<in> set xs \<Longrightarrow> P x \<Longrightarrow> f x = g x"
    and "\<And>x. x \<in> set xs \<Longrightarrow> \<not> P x \<Longrightarrow> g x = []"
  shows "concat (map f (filter P xs)) = concat (map g xs)"
  using assms by (induction xs) auto

lemma kept_children_all:
  assumes "\<forall>i<2 ^ D. m (push D k i) \<noteq> None"
  shows "kept_children (\<lambda>b. True) D m k = map (push D k) (rev [0..<2 ^ D])"
  unfolding kept_children_def
  by (rule filter_True) (use assms in \<open>auto split: option.splits\<close>)

lemma local_sources_inner:
  assumes "m k = Some b" "\<not> br_leaf b" "\<forall>i<2 ^ D. m (push D k i) \<noteq> None"
  shows "local_sources D (Suc n) m k
       = concat (map (local_sources D n m) (map (push D k) (rev [0..<2 ^ D])))"
  using assms
  by (simp add: comp_def local_sources_def kept_children_all concat_map_concat_map)

lemma pruned_sources:
  assumes cov: "\<forall>i<2 ^ D. covered D n m (push D k i)"
    and keep: "\<And>b. 0 < br_sub_entities b \<and> 0 < br_mass b \<Longrightarrow> keep b"
    and kept: "\<And>c. c \<in> set (kept_children keep D m k) \<Longrightarrow> f c = local_sources D n m c"
  shows "concat (map f (kept_children keep D m k))
       = concat (map (local_sources D n m) (map (push D k) (rev [0..<2 ^ D])))"
  unfolding kept_children_def
proof (rule concat_map_filter)
  fix c assume "c \<in> set (map (push D k) (rev [0..<2 ^ D]))"
    and "case m c of None \<Rightarrow> False | Some cb \<Rightarrow> keep cb"
  then have "c \<in> set (kept_children keep D m k)" by (simp add: kept_children_def)
  then show "f c = local_sources D n m c" by (rule kept)
next
  fix c assume c: "c \<in> set (map (push D k) (rev [0..<2 ^ D]))"
    and nk: "\<not> (case m c of None \<Rightarrow> False | Some cb \<Rightarrow> keep cb)"
  from c cov have "covered D n m c" by auto
  from covered_Some[OF this] obtain cb where
    cb: "m c = Some cb" "local_sources D n m c \<noteq> [] \<longrightarrow> 0 < br_sub_entities cb \<and> 0 < br_mass cb"
    by blast
  with nk keep[of cb] show "local_sources D n m c = []" by auto
qed

lemma force_calc_cells:
  "covered D n m k \<Longrightarrow>
     concat (map cell_sources (cells br_leaf (\<lambda>next. 0 < br_mass next) D n m k))
       = local_sources D n m k"
proof (induction n arbitrary: k)
  case 0
  then show ?case by (simp add: local_sources_def)
next
  case (Suc n)
  from Suc.prems obtain b where b: "m k = Some b" "br_id b = k"
    by (auto split: option.splits)
  show ?case
  proof (cases "br_leaf b")
    case True
    then show ?thesis using b by (simp add: local_sources_def)
  next
    case False
    with Suc.prems b have ch: "\<forall>i<2 ^ D. covered D n m (push D k i)"
      by (auto simp: list_all_iff)
    then have ex: "\<forall>i<2 ^ D. m (push D k i) \<noteq> None"
      using covered_Some by fastforce
    have "concat (map cell_sources (cells br_leaf (\<lambda>next. 0 < br_mass next) D (Suc n) m k))
        = concat (map (\<lambda>c. concat (map cell_sources (cells br_leaf (\<lambda>next. 0 < br_mass next) D n m c)))
                    (kept_children (\<lambda>next. 0 < br_mass next) D m k))"
      using b False by (simp add: concat_map_concat_map)
    also have "\<dots> = concat (map (local_sources D n m) (map (push D k) (rev [0..<2 ^ D])))"
    proof (rule pruned_sources[OF ch])
      fix c assume "c \<in> set (kept_children (\<lambda>next. 0 < br_mass next) D m k)"
      then have "covered D n m c" using ch kept_children_subset[of _ D m k] by auto
      then show "concat (map cell_sources (cells br_leaf (\<lambda>next. 0 < br_mass next) D n m c))
          = local_sources D n m c" by (rule Suc.IH)
    qed simp
    also have "\<dots> = local_sources D (Suc n) m k"
      using local_sources_inner[OF b(1) False ex] by simp
    finally show ?thesis .
  qed
qed

lemma apply_cells:
  assumes "covered D n m k" "m k = Some b" "\<not> br_leaf b \<or> 0 < br_sub_entities b"
  shows "walkable (work_cell nc) (\<lambda>next. 0 < br_sub_entities next) D n m k \<and>
         concat (map (\<lambda>c. local_sources D (n + j) m (fst c))
                   (cells (work_cell nc) (\<lambda>next. 0 < br_sub_entities next) D n m k))
           = local_sources D n m k \<and>
         (\<forall>c\<in>set (cells (work_cell nc) (\<lambda>next. 0 < br_sub_entities next) D n m k).
            covered D (n + j) m (fst c) \<and> m (fst c) = Some (snd c))"
  using assms
proof (induction n arbitrary: k b j)
  case 0
  then have "work_cell nc b" and "br_id b = k" by (auto simp: work_cell_def)
  with "0.prems"(2) local_sources_mono[OF "0.prems"(1), of j] covered_mono[OF "0.prems"(1), of j]
  show ?case by (simp del: covered.simps)
next
  case (Suc n)
  let ?keep = "\<lambda>next::real branch. 0 < br_sub_entities next"
  from Suc.prems have id: "br_id b = k" by simp
  show ?case
  proof (cases "work_cell nc b")
    case True
    with Suc.prems(2) id local_sources_mono[OF Suc.prems(1), of j] covered_mono[OF Suc.prems(1), of j]
    show ?thesis by (simp del: covered.simps)
  next
    case False
    with Suc.prems(3) have nl: "\<not> br_leaf b" by (auto simp: work_cell_def)
    with Suc.prems have ch: "\<forall>i<2 ^ D. covered D n m (push D k i)"
      by (auto simp: list_all_iff)
    then have ex: "\<forall>i<2 ^ D. m (push D k i) \<noteq> None"
      using covered_Some by fastforce
    have IH: "walkable (work_cell nc) ?keep D n m c \<and>
         concat (map (\<lambda>c. local_sources D (Suc n + j) m (fst c)) (cells (work_cell nc) ?keep D n m c))
           = local_sources D n m c \<and>
         (\<forall>w\<in>set (cells (work_cell nc) ?keep D n m c).
            covered D (Suc n + j) m (fst w) \<and> m (fst w) = Some (snd w))"
      if c: "c \<in> set (kept_children ?keep D m k)" for c
    proof -
      from c have cov: "covered D n m c" using ch kept_children_subset[of ?keep D m k] by auto
      from c obtain cb where cb: "m c = Some cb" "0 < br_sub_entities cb"
        by (auto simp: kept_children_def split: option.splits)
      from Suc.IH[OF cov cb(1), of "Suc j"] cb(2) show ?thesis by (simp del: covered.simps)
    qed
    have w: "walkable (work_cell nc) ?keep D (Suc n) m k"
      using Suc.prems(2) id False ex IH by (simp add: list_all_iff del: covered.simps)
    have "concat (map (\<lambda>c. local_sources D (Suc n + j) m (fst c))
                   (cells (work_cell nc) ?keep D (Suc n) m k))
        = concat (map (\<lambda>c. concat (map (\<lambda>c. local_sources D (Suc n + j) m (fst c))
                                     (cells (work_cell nc) ?keep D n m c)))
                    (kept_children ?keep D m k))"
      using Suc.prems(2) False by (simp add: concat_map_concat_map)
    also have "\<dots> = concat (map (local_sources D n m) (map (push D k) (rev [0..<2 ^ D])))"
      by (rule pruned_sources[OF ch]) (use IH in \<open>auto simp del: covered.simps\<close>)
    also have "\<dots> = local_sources D (Suc n) m k"
      using local_sources_inner[OF Suc.prems(2) nl ex] by simp
    finally have s: "concat (map (\<lambda>c. local_sources D (Suc n + j) m (fst c))
                   (cells (work_cell nc) ?keep D (Suc n) m k)) = local_sources D (Suc n) m k" .
    have "\<forall>c\<in>set (cells (work_cell nc) ?keep D (Suc n) m k).
            covered D (Suc n + j) m (fst c) \<and> m (fst c) = Some (snd c)"
      using Suc.prems(2) False IH by (auto simp del: covered.simps)
    with w s show ?thesis by blast
  qed
qed

lemma walk_invariant:
  assumes "\<And>k b acc acc'. stop b \<Longrightarrow> I acc \<Longrightarrow> visit k b acc = Inr acc' \<Longrightarrow> I acc'"
  shows "I acc \<Longrightarrow> walk stop keep visit D n m stk acc = Inr r \<Longrightarrow> I r"
proof (induction n arbitrary: stk acc)
  case 0
  then show ?case by (auto split: list.splits)
next
  case (Suc n)
  show ?case
  proof (cases stk)
    case Nil
    with Suc.prems show ?thesis by simp
  next
    case (Cons c rest)
    with Suc.prems obtain cb where cb: "m c = Some cb" by (auto split: option.splits)
    show ?thesis
    proof (cases "stop cb")
      case True
      with Suc.prems Cons cb obtain acc' where
        "visit c cb acc = Inr acc'" "walk stop keep visit D n m rest acc' = Inr r"
        by (auto split: sum.splits)
      with assms[OF True Suc.prems(1)] Suc.IH show ?thesis by blast
    next
      case False
      with Suc.prems Cons cb obtain stk' where "walk stop keep visit D n m stk' acc = Inr r"
        by (auto split: sum.splits)
      with Suc.IH[OF Suc.prems(1)] show ?thesis by blast
    qed
  qed
qed

lemma fst_apply_sub_entity: "fst (apply_sub_entity e il radius) = e"
  by (simp add: apply_sub_entity_def)

lemma force_calc_local:
  assumes "\<forall>c\<in>set calls. is_local (fst c)"
    and "force_calc n D t b il radius calls = Inr r"
  shows "\<forall>c\<in>set r. is_local (fst c)"
  using assms(2) unfolding force_calc_def
  by (rule walk_invariant[where I = "\<lambda>calls. \<forall>c\<in>set calls. is_local (fst c)", rotated 2])
     (use assms(1) in \<open>fastforce simp: apply_sub_entity_def\<close>)+

lemma apply_sub_cells_local:
  assumes "apply_sub_cells n D t b radius mac ncritical = Inr r"
  shows "\<forall>c\<in>set r. is_local (fst c)"
  using assms unfolding apply_sub_cells_def
  by (rule walk_invariant[where I = "\<lambda>calls. \<forall>c\<in>set calls. is_local (fst c)", rotated 2])
     (fastforce split: sum.splits dest: force_calc_local[rotated])+

lemma efold_collect_snd:
  "efold (\<lambda>(k, c) il. Inr (il @ [c])) xs acc = Inr (acc @ map snd xs)"
  by (induction xs arbitrary: acc) (simp_all split: prod.splits)

lemma sub_cells_inter_total:
  assumes "covered D n (tree_branch_map t) root_id" "nodes_bound D n \<le> fuel"
  shows "\<exists>il. sub_cells_inter fuel D t b mac = Inr il"
  unfolding sub_cells_inter_def root_def
  by (simp add: walk_total[OF covered_walkable[OF assms(1)] assms(2)] efold_collect_snd)

lemma efold_force_calc:
  "efold (\<lambda>(k, c) calls. Inr (calls @ map (\<lambda>e. apply_sub_entity e il radius)
                                          (filter is_local (br_ents c)))) xs calls
     = Inr (calls @ concat (map (\<lambda>c. map (\<lambda>e. apply_sub_entity e il radius) (cell_sources c)) xs))"
  by (induction xs arbitrary: calls) (simp_all add: cell_sources_def split: prod.splits)

lemma map_fst_calls:
  "map fst (concat (map (\<lambda>c. map (\<lambda>e. apply_sub_entity e il radius) (cell_sources c)) xs))
     = concat (map cell_sources xs)"
  by (induction xs) (simp_all add: comp_def fst_apply_sub_entity)

lemma force_calc_sources:
  assumes "covered D n (tree_branch_map t) w" "nodes_bound D n \<le> fuel"
  shows "\<exists>cs. force_calc fuel D t w il radius calls = Inr (calls @ cs) \<and>
              map fst cs = local_sources D n (tree_branch_map t) w"
  unfolding force_calc_def
  by (simp add: walk_total[OF covered_walkable[OF assms(1)] assms(2)] efold_force_calc
      map_fst_calls force_calc_cells[OF assms(1)])

lemma efold_sources:
  assumes "\<And>x acc. x \<in> set xs \<Longrightarrow> \<exists>cs. visit x acc = Inr (acc @ cs) \<and> map fst cs = h x"
  shows "\<exists>r. efold visit xs acc = Inr (acc @ r) \<and> map fst r = concat (map h xs)"
  using assms
proof (induction xs arbitrary: acc)
  case Nil
  then show ?case by simp
next
  case (Cons x xs)
  from Cons.prems[of x acc] obtain cs where cs: "visit x acc = Inr (acc @ cs)" "map fst cs = h x"
    by auto
  from Cons.IH[of "acc @ cs"] Cons.prems obtain r where
    "efold visit xs (acc @ cs) = Inr ((acc @ cs) @ r)" "map fst r = concat (map h xs)"
    by auto
  with cs show ?case by (intro exI[of _ "cs @ r"]) simp
qed

lemma apply_sub_cells_work_cell:
  "apply_sub_cells n D t b radius mac ncritical =
     walk (work_cell ncritical) (\<lambda>next. br_sub_entities next > 0)
       (\<lambda>k c calls.
          (case sub_cells_inter n D t c mac of
             Inl e \<Rightarrow> Inl e
           | Inr inter_list \<Rightarrow> force_calc n D t k inter_list radius calls))
       D n (tree_branch_map t) [b] []"
  unfolding apply_sub_cells_def work_cell_def ..

lemma apply_sub_cells_sources:
  assumes cov: "covered D n (tree_branch_map t) root_id"
    and rt: "tree_branch_map t root_id = Some b" "\<not> br_leaf b \<or> 0 < br_sub_entities b"
    and fuel: "nodes_bound D n \<le> fuel"
  shows "\<exists>calls. apply_sub_cells fuel D t root_id radius mac ncritical = Inr calls \<and>
           map fst calls = local_sources D n (tree_branch_map t) root_id"
proof -
  let ?m = "tree_branch_map t"
  let ?cells = "cells (work_cell ncritical) (\<lambda>next. 0 < br_sub_entities next) D n ?m root_id"
  let ?visit = "\<lambda>(k, c) calls.
          (case sub_cells_inter fuel D t c mac of
             Inl e \<Rightarrow> Inl e
           | Inr inter_list \<Rightarrow> force_calc fuel D t k inter_list radius calls)"
  from apply_cells[OF cov rt, of ncritical 0] have
    w: "walkable (work_cell ncritical) (\<lambda>next. 0 < br_sub_entities next) D n ?m root_id"
    and s: "concat (map (\<lambda>c. local_sources D n ?m (fst c)) ?cells) = local_sources D n ?m root_id"
    and c: "\<forall>c\<in>set ?cells. covered D n ?m (fst c)"
    by simp_all
  have run: "apply_sub_cells fuel D t root_id radius mac ncritical = efold ?visit ?cells []"
    unfolding apply_sub_cells_work_cell walk_total[OF w fuel] ..
  have "\<exists>r. efold ?visit ?cells [] = Inr ([] @ r) \<and>
            map fst r = concat (map (\<lambda>c. local_sources D n ?m (fst c)) ?cells)"
  proof (rule efold_sources)
    fix x acc assume x: "x \<in> set ?cells"
    obtain k cb where kc: "x = (k, cb)" by (cases x)
    from x c kc have ck: "covered D n ?m k" by auto
    from sub_cells_inter_total[OF cov fuel, of cb mac] obtain il where
      il: "sub_cells_inter fuel D t cb mac = Inr il" by blast
    from force_calc_sources[OF ck fuel, of il radius acc]
    show "\<exists>cs. ?visit x acc = Inr (acc @ cs) \<and> map fst cs = local_sources D n ?m (fst x)"
      by (simp add: kc il)
  qed
  with run s show ?thesis by simp
qed


lemma c3_covered:
  "covered 1 1 (tree_branch_map c3_tree) root_id \<and>
   local_sources 1 1 (tree_branch_map c3_tree) root_id = [c3_e1, c3_e0]"
  by (simp add: root_id_def local_sources_def cell_sources_def kept_children_def push_def upt2
      c3_tree_fields ex_branch_def c3_e0_def c3_e1_def ex_entity_def is_local_def)

text \<open>
  What \<open>apply_sub_cells\<close> does guarantee.  Every call of \<open>ef\<close> that it makes, from any branch
  of any tree, has a local entity as its source.  When the tree below the root is covered
  (every branch stored under its id, every inner branch with all its children, a positive
  number of sub-entities and a positive mass in every branch with a local entity below
  it), the root is an inner branch or counts an entity, and the budget of iterations is
  at least the bound on the number of branches, \<open>apply_sub_cells\<close> from the root returns,
  and the sources of its calls are the local entities of the leaves, each occurrence once,
  leaf after leaf.
\<close>

theorem apply_sub_cells_once_for_each_local_entity:
  "(apply_sub_cells fuel D t b radius mac ncritical = Inr calls \<longrightarrow>
      (\<forall>c\<in>set calls. is_local (fst c))) \<and>
   (covered D n (tree_branch_map t) root_id \<and>
    (\<exists>r. tree_branch_map t root_id = Some r \<and> (\<not> br_leaf r \<or> 0 < br_sub_entities r)) \<and>
    nodes_bound D n \<le> fuel \<longrightarrow>
      (\<exists>calls'. apply_sub_cells fuel D t root_id radius mac ncritical = Inr calls' \<and>
         map fst calls' = local_sources D n (tree_branch_map t) root_id))"
  using apply_sub_cells_local[of fuel D t b radius mac ncritical calls]
    apply_sub_cells_sources[of D n t _ fuel radius mac ncritical]
  by blast

theorem apply_sub_cells_once_for_each_local_entity_witness:
  "\<exists>calls. apply_sub_cells 3 1 c3_tree root_id (1 / 10) 0 32 = Inr calls \<and>
      map fst calls = [c3_e1, c3_e0] \<and> list_all (\<lambda>c. is_local (fst c)) calls"
proof -
  have r: "\<exists>r. tree_branch_map c3_tree root_id = Some r \<and> (\<not> br_leaf r \<or> 0 < br_sub_entities r)"
    by (simp add: root_id_def c3_tree_fields ex_branch_def)
  have f: "nodes_bound 1 1 \<le> 3" by simp
  from c3_covered have cov: "covered 1 1 (tree_branch_map c3_tree) root_id"
    and ls: "local_sources 1 1 (tree_branch_map c3_tree) root_id = [c3_e1, c3_e0]" by blast+
  from apply_sub_cells_once_for_each_local_entity[where D = 1 and n = 1 and t = c3_tree
      and fuel = 3 and radius = "1 / 10" and mac = 0 and ncritical = 32] cov r f
  obtain calls where c: "apply_sub_cells 3 1 c3_tree root_id (1 / 10) 0 32 = Inr calls"
    "map fst calls = local_sources 1 1 (tree_branch_map c3_tree) root_id" by blast
  from apply_sub_cells_once_for_each_local_entity[where D = 1 and t = c3_tree and b = root_id
      and fuel = 3 and radius = "1 / 10" and mac = 0 and ncritical = 32 and calls = calls] c(1)
  have "list_all (\<lambda>c. is_local (fst c)) calls" by (simp add: list_all_iff)
  with c ls show ?thesis by (intro exI[of _ calls]) simp
qed


section \<open>Applying a function: the neighbours it is handed\<close>

lemma subseq_concat_filter:
  assumes "\<And>x. x \<in> set xs \<Longrightarrow> subseq (f x) (g x)"
  shows "subseq (concat (map f (filter P xs))) (concat (map g xs))"
  using assms
proof (induction xs)
  case Nil
  then show ?case by simp
next
  case (Cons x xs)
  then have IH: "subseq (concat (map f (filter P xs))) (concat (map g xs))" by simp
  show ?case
  proof (cases "P x")
    case True
    with Cons.prems[of x] IH show ?thesis by (simp add: list_emb_append_mono)
  next
    case False
    with IH show ?thesis by (simp add: list_emb_append2)
  qed
qed

lemma kept_children_filter:
  "kept_children keep D m k
     = filter (\<lambda>c. case m c of None \<Rightarrow> False | Some cb \<Rightarrow> keep cb) (kept_children (\<lambda>b. True) D m k)"
  unfolding kept_children_def filter_filter
  by (rule filter_cong) (auto split: option.splits)

lemma cells_subseq:
  "subseq (cells stop keep D n m k) (cells stop (\<lambda>b. True) D n m k)"
proof (induction n arbitrary: k)
  case 0
  then show ?case by simp
next
  case (Suc n)
  have "subseq (concat (map (cells stop keep D n m) (kept_children keep D m k)))
          (concat (map (cells stop (\<lambda>b. True) D n m) (kept_children (\<lambda>b. True) D m k)))"
    unfolding kept_children_filter[of keep]
    by (rule subseq_concat_filter) (rule Suc.IH)
  then show ?case by (simp split: option.splits)
qed




















section \<open>Search in a radius: what the stack traversal returns\<close>

lemma find_in_radius_b_loop_walk:
  "find_in_radius_b_loop n D t center radius stk ents =
     walk br_leaf (\<lambda>branch. intersects_sphere_box (br_bmin branch) (br_bmax branch) center radius)
       (\<lambda>k b ents. Inr (ents @ filter (\<lambda>c. within' center (ent_coordinates c) radius) (br_ents b)))
       D n (tree_branch_map t) stk ents"
proof (induction n arbitrary: stk ents)
  case 0
  then show ?case by simp
next
  case (Suc n)
  show ?case
    by (simp add: Suc.IH split: list.splits option.splits sum.splits)
qed

lemma complete_walkable: "complete D n m k \<Longrightarrow> walkable br_leaf keep D n m k"
proof (induction n arbitrary: k)
  case 0
  then show ?case by (auto split: option.splits)
next
  case (Suc n)
  from Suc.prems obtain b where b: "m k = Some b" "br_id b = k"
    by (auto split: option.splits)
  show ?case
  proof (cases "br_leaf b")
    case True
    then show ?thesis using b by simp
  next
    case False
    with Suc.prems b have ch: "\<forall>i<2 ^ D. complete D n m (push D k i)"
      by (auto simp: list_all_iff)
    then have "\<forall>i<2 ^ D. m (push D k i) \<noteq> None"
      by (cases n) (auto split: option.splits)
    moreover have "\<forall>c\<in>set (kept_children keep D m k). walkable br_leaf keep D n m c"
      using ch Suc.IH kept_children_subset[of keep D m k] by auto
    ultimately show ?thesis using b by (simp add: list_all_iff)
  qed
qed

lemma efold_find:
  "efold (\<lambda>(k, b) ents. Inr (ents @ filter W (br_ents b))) xs acc
     = Inr (acc @ filter W (concat (map br_ents (map snd xs))))"
  by (induction xs arbitrary: acc) (simp_all split: prod.splits)

lemma find_in_radius_b_exact:
  assumes "complete D n (tree_branch_map t) root_id" "nodes_bound D n \<le> fuel"
  shows "find_in_radius_b fuel D t center radius =
     Inr (filter (\<lambda>q. distance center (ent_coordinates q) \<le> radius)
            (concat (map br_ents (sphere_leaves D n (tree_branch_map t) center radius))))"
  unfolding find_in_radius_b_def root_def find_in_radius_b_loop_walk sphere_leaves_def
  by (simp add: walk_total[OF complete_walkable[OF assms(1)] assms(2)] efold_find within'_def)

lemma sum_list_map2_mono:
  fixes f g :: "real \<Rightarrow> real \<Rightarrow> real"
  assumes "length xs = length ys" "length us = length vs" "length xs = length us"
    and "\<And>i. i < length xs \<Longrightarrow> f (xs ! i) (ys ! i) \<le> g (us ! i) (vs ! i)"
  shows "sum_list (map2 f xs ys) \<le> sum_list (map2 g us vs)"
proof -
  have "sum_list (map2 f xs ys) = (\<Sum>i = 0..<length xs. f (xs ! i) (ys ! i))"
    using assms(1) by (simp add: sum_list_sum_nth)
  also have "\<dots> \<le> (\<Sum>i = 0..<length xs. g (us ! i) (vs ! i))"
    by (rule sum_mono) (simp add: assms(4))
  also have "\<dots> = sum_list (map2 g us vs)"
    using assms(2,3) by (simp add: sum_list_sum_nth)
  finally show ?thesis .
qed

lemma clamp_closer:
  fixes lo hi c q :: real
  assumes "lo \<le> q" "q \<le> hi"
  shows "(std_max lo (std_min c hi) - c)\<^sup>2 \<le> (c - q)\<^sup>2"
proof -
  have "\<bar>std_max lo (std_min c hi) - c\<bar> \<le> \<bar>c - q\<bar>"
    using assms by (auto simp: std_max_def std_min_def)
  then show ?thesis by (simp add: abs_le_square_iff)
qed

lemma box_meets_sphere:
  assumes "in_box b q" "length center = length (ent_coordinates q)"
    and "distance center (ent_coordinates q) \<le> radius"
  shows "intersects_sphere_box (br_bmin b) (br_bmax b) center radius"
proof -
  let ?q = "ent_coordinates q"
  let ?x = "map (\<lambda>(lo, hi, cd). std_max lo (std_min cd hi)) (zip (br_bmin b) (zip (br_bmax b) center))"
  from assms(1) have l: "length (br_bmin b) = length ?q" "length (br_bmax b) = length ?q"
    and bd: "\<And>d. d < length ?q \<Longrightarrow> br_bmin b ! d \<le> ?q ! d \<and> ?q ! d \<le> br_bmax b ! d"
    by (auto simp: in_box_def list_all_iff)
  have lx: "length ?x = length center" using l assms(2) by simp
  have "sum_list (map2 (\<lambda>a b. (a - b)\<^sup>2) ?x center) \<le> sum_list (map2 (\<lambda>a b. (a - b)\<^sup>2) center ?q)"
  proof (rule sum_list_map2_mono)
    fix i assume "i < length ?x"
    then have i: "i < length ?q" using lx assms(2) by simp
    then have "?x ! i = std_max (br_bmin b ! i) (std_min (center ! i) (br_bmax b ! i))"
      using l assms(2) by simp
    with clamp_closer[of "br_bmin b ! i" "?q ! i" "br_bmax b ! i" "center ! i"] bd[OF i]
    show "(?x ! i - center ! i)\<^sup>2 \<le> (center ! i - ?q ! i)\<^sup>2" by simp
  qed (use lx assms(2) in simp_all)
  then have "distance ?x center \<le> distance center ?q"
    by (simp add: distance_def)
  with assms(3) show ?thesis by (simp add: intersects_sphere_box_def)
qed

lemma boxes_hold_Some:
  "boxes_hold D n m k \<Longrightarrow> \<exists>b. m k = Some b \<and> list_all (in_box b) (ents_below D n m k)"
  by (cases n) (auto split: option.splits)

lemma complete_Some: "complete D n m k \<Longrightarrow> \<exists>b. m k = Some b \<and> br_id b = k"
  by (cases n) (auto split: option.splits)

lemma ents_below_inner:
  assumes "m k = Some b" "\<not> br_leaf b" "\<forall>i<2 ^ D. m (push D k i) \<noteq> None"
  shows "ents_below D (Suc n) m k
       = concat (map (ents_below D n m) (map (push D k) (rev [0..<2 ^ D])))"
  using assms
  by (simp add: comp_def ents_below_def all_leaves_def kept_children_all concat_map_concat_map)

lemma sphere_pruning:
  assumes "complete D n m k" "boxes_hold D n m k"
    and "\<forall>q\<in>set (ents_below D n m k). length (ent_coordinates q) = length center"
  shows "concat (map (\<lambda>c. filter (\<lambda>q. distance center (ent_coordinates q) \<le> radius) (br_ents (snd c)))
           (cells br_leaf (\<lambda>branch. intersects_sphere_box (br_bmin branch) (br_bmax branch) center radius)
              D n m k))
       = filter (\<lambda>q. distance center (ent_coordinates q) \<le> radius) (ents_below D n m k)"
  using assms
proof (induction n arbitrary: k)
  case 0
  then show ?case
    by (auto simp: ents_below_def all_leaves_def split: option.splits)
next
  case (Suc n)
  let ?W = "\<lambda>q. distance center (ent_coordinates q) \<le> radius"
  let ?keep = "\<lambda>branch. intersects_sphere_box (br_bmin branch) (br_bmax branch) center radius"
  let ?g = "\<lambda>c::nat \<times> real branch. filter ?W (br_ents (snd c))"
  from Suc.prems(1) obtain b where b: "m k = Some b" "br_id b = k"
    by (auto split: option.splits)
  show ?case
  proof (cases "br_leaf b")
    case True
    then show ?thesis using b by (simp add: ents_below_def all_leaves_def)
  next
    case False
    with Suc.prems b have ch: "\<forall>i<2 ^ D. complete D n m (push D k i)"
      and bh: "\<forall>i<2 ^ D. boxes_hold D n m (push D k i)"
      by (auto simp: list_all_iff)
    from ch have ex: "\<forall>i<2 ^ D. m (push D k i) \<noteq> None"
      using complete_Some by fastforce
    note eb = ents_below_inner[OF b(1) False ex, of n]
    have len: "\<forall>q\<in>set (ents_below D n m (push D k i)). length (ent_coordinates q) = length center"
      if "i < 2 ^ D" for i
      using Suc.prems(3) that unfolding eb by auto
    have "concat (map ?g (cells br_leaf ?keep D (Suc n) m k))
        = concat (map (\<lambda>c. concat (map ?g (cells br_leaf ?keep D n m c))) (kept_children ?keep D m k))"
      using b False by (simp add: concat_map_concat_map)
    also have "\<dots> = concat (map (\<lambda>c. filter ?W (ents_below D n m c)) (map (push D k) (rev [0..<2 ^ D])))"
      unfolding kept_children_def
    proof (rule concat_map_filter)
      fix c assume c: "c \<in> set (map (push D k) (rev [0..<2 ^ D]))"
        and "case m c of None \<Rightarrow> False | Some cb \<Rightarrow> ?keep cb"
      from c obtain i where i: "i < 2 ^ D" "c = push D k i" by auto
      with ch bh len[OF i(1)] Suc.IH[of c]
      show "concat (map ?g (cells br_leaf ?keep D n m c)) = filter ?W (ents_below D n m c)"
        by simp
    next
      fix c assume c: "c \<in> set (map (push D k) (rev [0..<2 ^ D]))"
        and nk: "\<not> (case m c of None \<Rightarrow> False | Some cb \<Rightarrow> ?keep cb)"
      from c obtain i where i: "i < 2 ^ D" "c = push D k i" by auto
      from bh i boxes_hold_Some[of D n m c] obtain cb where
        cb: "m c = Some cb" "list_all (in_box cb) (ents_below D n m c)" by auto
      have "\<not> ?W q" if q: "q \<in> set (ents_below D n m c)" for q
      proof
        assume "?W q"
        with box_meets_sphere[of cb q center radius] cb(2) q len[OF i(1)] i(2)
        have "?keep cb" by (auto simp: list_all_iff)
        with nk cb(1) show False by simp
      qed
      then show "filter ?W (ents_below D n m c) = []" by (simp add: filter_empty_conv)
    qed
    also have "\<dots> = filter ?W (ents_below D (Suc n) m k)"
      unfolding eb by (simp add: filter_concat comp_def)
    finally show ?thesis .
  qed
qed

lemma c3_insert:
  "tree_insert 5 (Suc 0) 2 c3_tree c3_e2 =
     Inr (c3_tree\<lparr>tree_branch_map := (tree_branch_map c3_tree)(2 \<mapsto>
            (ex_branch 2 True [c3_e0, c3_e2\<lparr>ent_branch_id := 2\<rparr>])\<lparr>br_mass := 1,
               br_coordinates := [2 / 5], br_bmin := [2 / 5], br_bmax := [2 / 5],
               br_sub_entities := 1\<rparr>)\<rparr>)"
proof -
  have k: "to_branch_id (Suc 0) ([0], [1]) [1 / 10] (Suc 0) = 2"
    by (simp add: to_branch_id_def level_selector_def push_def root_id_def)
  have d: "key_depth (Suc 0) 2 = Suc 0"
    by (simp add: key_depth_def floorlog_def)
  have p: "find_parent (Suc 0) (tree_branch_map c3_tree) 2 (Suc 0) = Some 2"
    by (simp add: find_parent_def truncate_def d find_parent'.simps c3_tree_fields)
  have "tree_insert 5 (Suc 0) 2 c3_tree c3_e2 = insert_at (Suc 4) (Suc 0) 2 c3_tree c3_e2 (Suc 0)"
    by (simp add: tree_insert_def c3_tree_fields)
  also have "\<dots> = Inr (c3_tree\<lparr>tree_branch_map := (tree_branch_map c3_tree)(2 \<mapsto>
            (ex_branch 2 True [c3_e0, c3_e2\<lparr>ent_branch_id := 2\<rparr>])\<lparr>br_mass := 1,
               br_coordinates := [2 / 5], br_bmin := [2 / 5], br_bmax := [2 / 5],
               br_sub_entities := 1\<rparr>)\<rparr>)"
    by (subst insert_at.simps(2))
       (simp add: c3_tree_fields c3_e2_def ex_entity_def k p branch_insert_def ex_branch_def)
  finally show ?thesis .
qed

lemma c3_stale_fields:
  "tree_branch_map c3_stale (Suc 0) = Some ((ex_branch 1 False [])\<lparr>br_mass := 2, br_coordinates := [23 / 50],
      br_bmin := [2 / 5], br_bmax := [13 / 25], br_sub_entities := 2\<rparr>)"
  "tree_branch_map c3_stale (Suc (Suc 0)) = Some ((ex_branch 2 True [c3_e0, c3_e2\<lparr>ent_branch_id := 2\<rparr>])\<lparr>br_mass := 1,
      br_coordinates := [2 / 5], br_bmin := [2 / 5], br_bmax := [2 / 5], br_sub_entities := 1\<rparr>)"
  "tree_branch_map c3_stale (Suc (Suc (Suc 0))) = Some ((ex_branch 3 True [c3_e1])\<lparr>br_mass := 1, br_coordinates := [13 / 25],
      br_bmin := [13 / 25], br_bmax := [13 / 25], br_sub_entities := 1\<rparr>)"
  by (simp_all add: c3_stale_def c3_insert c3_tree_fields)

lemma c3_complete:
  "complete 1 1 (tree_branch_map c3_tree) root_id \<and>
   boxes_hold 1 1 (tree_branch_map c3_tree) root_id \<and>
   ents_below 1 1 (tree_branch_map c3_tree) root_id = [c3_e1, c3_e0]"
  by (simp add: root_id_def ents_below_def all_leaves_def kept_children_def push_def upt2
      c3_tree_fields ex_branch_def c3_e0_def c3_e1_def ex_entity_def in_box_def)

text \<open>
  Claim C3.  What the stack traversal returns.  On a complete tree and with a budget of
  iterations of at least the bound on the number of branches, \<open>find_in_radius_b\<close> returns
  the entities at a distance of at most \<open>radius\<close> from \<open>center\<close> in the leaves that its descent
  reaches, leaf after leaf; these leaves are a subsequence of the leaves of the tree.  When
  the stored box of every branch holds the position of every entity below the branch, it
  returns exactly the entities of the tree at a distance of at most \<open>radius\<close> from \<open>center\<close>,
  each as often as the leaves hold it.  \<open>find_in_radius\<close> is not part of the statement: in
  the sources \<open>find_start_\<close> assigns the \<open>branch_t&\<close> that \<open>find_parent\<close> returns to a \<open>branch_t*\<close>
  and returns the iterator \<open>root_\<close> as a \<open>branch_t*\<close>, so the function cannot be instantiated.
\<close>

theorem find_in_radius_b_within_radius:
  assumes "complete D n (tree_branch_map t) root_id" and "nodes_bound D n \<le> fuel"
  shows "find_in_radius_b fuel D t center radius =
       Inr (filter (\<lambda>q. distance center (ent_coordinates q) \<le> radius)
              (concat (map br_ents (sphere_leaves D n (tree_branch_map t) center radius)))) \<and>
     subseq (sphere_leaves D n (tree_branch_map t) center radius)
       (all_leaves D n (tree_branch_map t) root_id) \<and>
     (boxes_hold D n (tree_branch_map t) root_id \<and>
      (\<forall>q\<in>set (ents_below D n (tree_branch_map t) root_id).
          length (ent_coordinates q) = length center) \<longrightarrow>
        find_in_radius_b fuel D t center radius =
          Inr (filter (\<lambda>q. distance center (ent_coordinates q) \<le> radius)
                 (ents_below D n (tree_branch_map t) root_id)))"
proof (intro conjI impI)
  let ?m = "tree_branch_map t"
  let ?W = "\<lambda>q. distance center (ent_coordinates q) \<le> radius"
  note ex = find_in_radius_b_exact[OF assms, of center radius]
  show "find_in_radius_b fuel D t center radius =
       Inr (filter ?W (concat (map br_ents (sphere_leaves D n ?m center radius))))"
    by (rule ex)
  show "subseq (sphere_leaves D n ?m center radius) (all_leaves D n ?m root_id)"
    unfolding sphere_leaves_def all_leaves_def by (simp add: subseq_map cells_subseq)
  assume h: "boxes_hold D n ?m root_id \<and>
      (\<forall>q\<in>set (ents_below D n ?m root_id). length (ent_coordinates q) = length center)"
  have "filter ?W (concat (map br_ents (sphere_leaves D n ?m center radius)))
      = concat (map (\<lambda>c. filter ?W (br_ents (snd c)))
           (cells br_leaf (\<lambda>branch. intersects_sphere_box (br_bmin branch) (br_bmax branch) center radius)
              D n ?m root_id))"
    by (simp add: sphere_leaves_def filter_concat comp_def)
  also have "\<dots> = filter ?W (ents_below D n ?m root_id)"
    using sphere_pruning[OF assms(1), of center radius] h by blast
  finally show "find_in_radius_b fuel D t center radius = Inr (filter ?W (ents_below D n ?m root_id))"
    using ex by simp
qed

text \<open>
  Without boxes that hold the entities the search misses entities within the radius.  The
  tree \<open>c3_tree\<close> has its aggregates up to date; \<open>insert\<close> then puts a particle at \<open>1/10\<close> into
  the leaf \<open>2\<close>, whose box stays \<open>[2/5, 2/5]\<close>.  The search around \<open>1/10\<close> with radius \<open>1/20\<close>
  does not descend into the leaf \<open>2\<close> and returns nothing, although the new particle is at
  the centre.
\<close>

theorem find_in_radius_b_misses_after_insert:
  "tree_insert 5 1 2 c3_tree c3_e2 = Inr c3_stale \<and>
   find_in_radius_b 3 1 c3_stale [1 / 10] (1 / 20) = Inr [] \<and>
   map_option br_ents (tree_branch_map c3_stale 2) = Some [c3_e0, c3_e2\<lparr>ent_branch_id := 2\<rparr>] \<and>
   distance [1 / 10] (ent_coordinates (c3_e2\<lparr>ent_branch_id := 2\<rparr>)) \<le> 1 / 20"
proof (intro conjI)
  show "tree_insert 5 1 2 c3_tree c3_e2 = Inr c3_stale"
    by (simp add: c3_stale_def c3_insert)
  show "find_in_radius_b 3 1 c3_stale [1 / 10] (1 / 20) = Inr []"
    by (simp add: find_in_radius_b_def root_def root_id_def numeral_3_eq_3 c3_stale_fields
        ex_branch_def within'_def distance_1d child_def push_def upt2 intersects_sphere_box_def
        std_max_def std_min_def)
  show "map_option br_ents (tree_branch_map c3_stale 2) = Some [c3_e0, c3_e2\<lparr>ent_branch_id := 2\<rparr>]"
    using c3_stale_fields(2) by (simp add: numeral_2_eq_2 ex_branch_def)
  show "distance [1 / 10] (ent_coordinates (c3_e2\<lparr>ent_branch_id := 2\<rparr>)) \<le> 1 / 20"
    by (simp add: c3_e2_def ex_entity_def distance_1d)
qed

theorem find_in_radius_b_within_radius_witness:
  "find_in_radius_b 3 1 c3_tree [9 / 20] (1 / 10) = Inr [c3_e1, c3_e0] \<and>
   ents_below 1 1 (tree_branch_map c3_tree) root_id = [c3_e1, c3_e0] \<and>
   find_in_radius_b 3 1 c3_tree [3 / 5] (1 / 10) = Inr [c3_e1]"
proof -
  from c3_complete have c: "complete 1 1 (tree_branch_map c3_tree) root_id"
    and b: "boxes_hold 1 1 (tree_branch_map c3_tree) root_id"
    and e: "ents_below 1 1 (tree_branch_map c3_tree) root_id = [c3_e1, c3_e0]" by blast+
  have f: "nodes_bound 1 1 \<le> 3" by simp
  have l: "\<forall>q\<in>set (ents_below 1 1 (tree_branch_map c3_tree) root_id).
      length (ent_coordinates q) = length [x::real]" for x
    unfolding e by (simp add: c3_e0_def c3_e1_def ex_entity_def)
  from find_in_radius_b_within_radius[OF c f, of "[9 / 20]" "1 / 10"] b l[of "9 / 20"]
  have "find_in_radius_b 3 1 c3_tree [9 / 20] (1 / 10) =
      Inr (filter (\<lambda>q. distance [9 / 20] (ent_coordinates q) \<le> 1 / 10)
             (ents_below 1 1 (tree_branch_map c3_tree) root_id))" by blast
  then have 1: "find_in_radius_b 3 1 c3_tree [9 / 20] (1 / 10) = Inr [c3_e1, c3_e0]"
    unfolding e by (simp add: c3_e0_def c3_e1_def ex_entity_def distance_1d)
  from find_in_radius_b_within_radius[OF c f, of "[3 / 5]" "1 / 10"] b l[of "3 / 5"]
  have "find_in_radius_b 3 1 c3_tree [3 / 5] (1 / 10) =
      Inr (filter (\<lambda>q. distance [3 / 5] (ent_coordinates q) \<le> 1 / 10)
             (ents_below 1 1 (tree_branch_map c3_tree) root_id))" by blast
  then have 2: "find_in_radius_b 3 1 c3_tree [3 / 5] (1 / 10) = Inr [c3_e1]"
    unfolding e by (simp add: c3_e0_def c3_e1_def ex_entity_def distance_1d)
  from 1 2 e show ?thesis by (intro conjI)
qed

end
